theory Spec2Isabelle
  imports Complex_Main "HOL-Library.Multiset"
begin

section \<open>Data model\<close>

text \<open>
  The workflow state of \<^verbatim>\<open>my_agent\<close> is a Python dict threaded through the nodes of a
  LangGraph graph. Every Python exception the nodes and routers can raise is a value of
  \<open>error\<close>; a function that can raise returns \<open>error + 'a\<close> with \<open>Inl\<close> for the exception.
  \<open>BadReference\<close> is not a Python exception: it marks a read through an address that holds
  no object of the expected kind, in the store model of the deep copy, which no Python
  program can produce.
\<close>

datatype error =
    KeyError string
  | IndexError
  | ZeroDivisionError
  | ValueError
  | BadReference

text \<open>
  A score is what \<^verbatim>\<open>float(result.content)\<close> returns: a finite number (every double is a
  rational), an infinity, or NaN, since \<^verbatim>\<open>float\<close> accepts the replies \<^verbatim>\<open>inf\<close> and \<^verbatim>\<open>nan\<close> as
  well. \<open>float_lt\<close> is Python's \<^verbatim>\<open><\<close> on floats: every comparison with NaN is false.
\<close>

datatype pyfloat = Finite rat | PosInf | NegInf | NaN

fun float_lt :: "pyfloat \<Rightarrow> pyfloat \<Rightarrow> bool" where
  "float_lt NaN y = False"
| "float_lt x NaN = False"
| "float_lt (Finite a) (Finite b) = (a < b)"
| "float_lt (Finite a) PosInf = True"
| "float_lt (Finite a) NegInf = False"
| "float_lt PosInf y = False"
| "float_lt NegInf NegInf = False"
| "float_lt NegInf y = True"

text \<open>
  An agent response is the dict built by \<^verbatim>\<open>join_graph\<close> (\<^verbatim>\<open>{"text": ...}\<close>), to which the
  commenter adds the key \<^verbatim>\<open>"comments"\<close> and the scorer the key \<^verbatim>\<open>"score"\<close>. A key that has
  not been written is \<open>None\<close>.
\<close>

record agent_response =
  resp_text :: string
  comments :: "string option"
  score :: "pyfloat option"

text \<open>A thread is the dict \<^verbatim>\<open>{"agent_name": ..., "content": [...]}\<close>.\<close>

record thread =
  agent_name :: string
  content :: "agent_response list"

text \<open>
  The graph state. Each key of the dict is a field; \<open>None\<close> is a key that no node has
  written yet. A node returns a partial update, which is a value of the same type whose
  untouched keys are \<open>None\<close>.
\<close>

record graph_state =
  question :: "string option"
  initial_response_agent :: "string option"
  responses :: "thread list option"
  threads :: "int option"
  start :: "int option"
  cur_response :: "agent_response option"
  difficulty :: "int option"
  beams :: "int option"
  revisions :: "int option"
  index :: "int option"
  discarded_responses :: "thread list option"
  done_flag :: "bool option"
  final_response :: "string option"

definition no_update :: graph_state where
  "no_update = \<lparr> question = None, initial_response_agent = None, responses = None,
     threads = None, start = None, cur_response = None, difficulty = None, beams = None,
     revisions = None, index = None, discarded_responses = None, done_flag = None,
     final_response = None \<rparr>"

text \<open>
  Modelled from the spec: the declaration of \<^verbatim>\<open>GraphState\<close> (\<^verbatim>\<open>my_agent/state.py\<close>), which
  tells the engine how to fold a node's update into the state, is not part of the sources.
  The specification has the engine merge the update by key, the update's value
  overwriting the old one, and has the discarded threads form an append-only audit trail
  to which each selection appends the threads it culls: every key is overwritten, and the
  value returned under \<^verbatim>\<open>discarded_responses\<close> is appended to the list already there.
\<close>

definition overwrite :: "'a option \<Rightarrow> 'a option \<Rightarrow> 'a option" where
  "overwrite new old = (case new of None \<Rightarrow> old | Some v \<Rightarrow> Some v)"

definition append_only :: "'a list option \<Rightarrow> 'a list option \<Rightarrow> 'a list option" where
  "append_only new old =
     (case new of
        None \<Rightarrow> old
      | Some added \<Rightarrow> (case old of None \<Rightarrow> Some added | Some trail \<Rightarrow> Some (trail @ added)))"

definition merge_update :: "graph_state \<Rightarrow> graph_state \<Rightarrow> graph_state" where
  "merge_update upd st = \<lparr>
     question = overwrite (question upd) (question st),
     initial_response_agent = overwrite (initial_response_agent upd) (initial_response_agent st),
     responses = overwrite (responses upd) (responses st),
     threads = overwrite (threads upd) (threads st),
     start = overwrite (start upd) (start st),
     cur_response = overwrite (cur_response upd) (cur_response st),
     difficulty = overwrite (difficulty upd) (difficulty st),
     beams = overwrite (beams upd) (beams st),
     revisions = overwrite (revisions upd) (revisions st),
     index = overwrite (index upd) (index st),
     discarded_responses = append_only (discarded_responses upd) (discarded_responses st),
     done_flag = overwrite (done_flag upd) (done_flag st),
     final_response = overwrite (final_response upd) (final_response st) \<rparr>"

section \<open>Python list primitives\<close>

text \<open>
  \<^verbatim>\<open>xs[i]\<close>: a negative index counts from the end, an index out of range raises.
  \<open>py_position\<close> is the position the index denotes, \<open>py_index\<close> the element there.
\<close>

definition py_position :: "'a list \<Rightarrow> int \<Rightarrow> error + nat" where
  "py_position xs i =
     (if 0 \<le> i \<and> i < int (length xs) then Inr (nat i)
      else if i < 0 \<and> - int (length xs) \<le> i then Inr (nat (int (length xs) + i))
      else Inl IndexError)"

definition py_index :: "'a list \<Rightarrow> int \<Rightarrow> error + 'a" where
  "py_index xs i = (case py_position xs i of Inl e \<Rightarrow> Inl e | Inr j \<Rightarrow> Inr (xs ! j))"

text \<open>\<^verbatim>\<open>xs[:n]\<close> and \<^verbatim>\<open>xs[n:]\<close>: a negative bound counts from the end, and slices never raise.\<close>

definition slice_to :: "'a list \<Rightarrow> int \<Rightarrow> 'a list" where
  "slice_to xs n = (if n < 0 then take (nat (int (length xs) + n)) xs else take (nat n) xs)"

definition slice_from :: "'a list \<Rightarrow> int \<Rightarrow> 'a list" where
  "slice_from xs n = (if n < 0 then drop (nat (int (length xs) + n)) xs else drop (nat n) xs)"

text \<open>\<^verbatim>\<open>a // b\<close> and \<^verbatim>\<open>a % b\<close> on Python ints: floor division, raising on a zero divisor.\<close>

definition py_floordiv :: "int \<Rightarrow> int \<Rightarrow> error + int" where
  "py_floordiv a b = (if b = 0 then Inl ZeroDivisionError else Inr (a div b))"

definition py_mod :: "int \<Rightarrow> int \<Rightarrow> error + int" where
  "py_mod a b = (if b = 0 then Inl ZeroDivisionError else Inr (a mod b))"

text \<open>\<^verbatim>\<open>range(n)\<close>: empty when \<open>n \<le> 0\<close>.\<close>

definition py_range :: "int \<Rightarrow> int list" where
  "py_range n = map int [0..<nat n]"

section \<open>Beam search selection (\<^verbatim>\<open>upper_agents.beam_search_agent\<close>)\<close>

text \<open>The sort key \<^verbatim>\<open>x["content"][-1]["score"]\<close>.\<close>

definition latest_score :: "thread \<Rightarrow> error + pyfloat" where
  "latest_score x =
     (case py_index (content x) (- 1) of
        Inl e \<Rightarrow> Inl e
      | Inr r \<Rightarrow> (case score r of None \<Rightarrow> Inl (KeyError ''score'') | Some s \<Rightarrow> Inr s))"

text \<open>
  \<^verbatim>\<open>list.sort(key=..., reverse=True)\<close> first computes the key of every element, in order
  (the first key that raises aborts the sort), then sorts the decorated list. It compares
  keys with \<^verbatim>\<open><\<close> only, it is stable, and with \<^verbatim>\<open>reverse=True\<close> it sorts the reversed list and
  reverses the result, so that elements with equal keys keep their original order.

  \<open>list_sort_reverse\<close> does this by insertion: from the last element to the first, each
  element is put in front of the elements sorted so far and moved back past those whose
  key is greater (those its own key is \<^verbatim>\<open><\<close>), so elements that are not \<^verbatim>\<open><\<close> each other stay
  in their original order. When no key is NaN the keys are totally ordered and there is
  one stable descending arrangement, which every stable sort returns. When a key is NaN
  the comparisons are inconsistent and the list CPython returns depends on which keys its
  algorithm compares; \<open>list_sort_reverse\<close> is that list whenever no element's key is \<^verbatim>\<open><\<close> the
  key of the element after it (the reversed list is then one ascending run, which
  \<^verbatim>\<open>list.sort\<close> detects and leaves in place), and for the other lists with a NaN key the
  results below use of the sorted list only that it is a permutation of the input.
\<close>

fun insert_desc :: "pyfloat \<times> 'a \<Rightarrow> (pyfloat \<times> 'a) list \<Rightarrow> (pyfloat \<times> 'a) list" where
  "insert_desc p [] = [p]"
| "insert_desc p (q # qs) =
     (if float_lt (fst p) (fst q) then q # insert_desc p qs else p # q # qs)"

fun list_sort_reverse :: "(pyfloat \<times> 'a) list \<Rightarrow> (pyfloat \<times> 'a) list" where
  "list_sort_reverse [] = []"
| "list_sort_reverse (p # ps) = insert_desc p (list_sort_reverse ps)"

fun sort_keys :: "thread list \<Rightarrow> error + pyfloat list" where
  "sort_keys [] = Inr []"
| "sort_keys (x # xs) =
     (case latest_score x of
        Inl e \<Rightarrow> Inl e
      | Inr k \<Rightarrow> (case sort_keys xs of Inl e \<Rightarrow> Inl e | Inr ks \<Rightarrow> Inr (k # ks)))"

definition sort_reverse :: "thread list \<Rightarrow> error + thread list" where
  "sort_reverse xs =
     (case sort_keys xs of
        Inl e \<Rightarrow> Inl e
      | Inr ks \<Rightarrow> Inr (map snd (list_sort_reverse (zip ks xs))))"

text \<open>
  The inner loop \<^verbatim>\<open>for i in range(threads // beams): final_responses.append(copy.deepcopy(response))\<close>.
  On values a deep copy is the thread itself; the sharing that \<^verbatim>\<open>deepcopy\<close> breaks is the
  subject of the store model further down.
\<close>

fun append_copies :: "int list \<Rightarrow> thread \<Rightarrow> thread list \<Rightarrow> thread list" where
  "append_copies [] response acc = acc"
| "append_copies (i # is) response acc = append_copies is response (acc @ [response])"

text \<open>The outer loop \<^verbatim>\<open>for response in best_responses\<close>; the quotient is evaluated on every pass.\<close>

fun clone_loop :: "int \<Rightarrow> int \<Rightarrow> thread list \<Rightarrow> thread list \<Rightarrow> error + thread list" where
  "clone_loop n b [] acc = Inr acc"
| "clone_loop n b (response # rest) acc =
     (case py_floordiv n b of
        Inl e \<Rightarrow> Inl e
      | Inr q \<Rightarrow> clone_loop n b rest (append_copies (py_range q) response acc))"

text \<open>The second loop \<^verbatim>\<open>for i in range(threads % beams): ...append(copy.deepcopy(best_responses[i]))\<close>.\<close>

fun extra_loop :: "thread list \<Rightarrow> int list \<Rightarrow> thread list \<Rightarrow> error + thread list" where
  "extra_loop best [] acc = Inr acc"
| "extra_loop best (i # is) acc =
     (case py_index best i of
        Inl e \<Rightarrow> Inl e
      | Inr response \<Rightarrow> extra_loop best is (acc @ [response]))"

definition beam_search_agent :: "graph_state \<Rightarrow> error + graph_state" where
  "beam_search_agent st =
     (case responses st of
        None \<Rightarrow> Inl (KeyError ''responses'')
      | Some rs \<Rightarrow>
     (case sort_reverse rs of
        Inl e \<Rightarrow> Inl e
      | Inr sorted_rs \<Rightarrow>
     (case beams st of
        None \<Rightarrow> Inl (KeyError ''beams'')
      | Some b \<Rightarrow>
     (case threads st of
        None \<Rightarrow> Inl (KeyError ''threads'')
      | Some n \<Rightarrow>
     (let best_responses = slice_to sorted_rs b;
          bad_responses = slice_from sorted_rs b
      in
     (case clone_loop n b best_responses [] of
        Inl e \<Rightarrow> Inl e
      | Inr acc \<Rightarrow>
     (case py_mod n b of
        Inl e \<Rightarrow> Inl e
      | Inr r \<Rightarrow>
     (case extra_loop best_responses (py_range r) acc of
        Inl e \<Rightarrow> Inl e
      | Inr final_responses \<Rightarrow>
          Inr (no_update\<lparr> responses := Some final_responses,
                          discarded_responses := Some bad_responses,
                          index := Some 0 \<rparr>)))))))))"

text \<open>
  A thread is scored when it has a history whose last entry has a score, and numeric when
  that score is not NaN.
\<close>

definition scored :: "thread \<Rightarrow> bool" where
  "scored x = (content x \<noteq> [] \<and> score (last (content x)) \<noteq> None)"

definition score_of :: "thread \<Rightarrow> pyfloat" where
  "score_of x = the (score (last (content x)))"

definition numeric :: "thread \<Rightarrow> bool" where
  "numeric x = (score_of x \<noteq> NaN)"

text \<open>The order in which the sort leaves a scored population.\<close>

definition ranked :: "thread list \<Rightarrow> thread list" where
  "ranked rs = map snd (list_sort_reverse (zip (map score_of rs) rs))"

section \<open>Difficulty configuration (\<^verbatim>\<open>upper_agents.create_difficulty_agent\<close>)\<close>

text \<open>
  The result of a model call, as far as the nodes read it: \<open>reply_text\<close> is
  \<^verbatim>\<open>result.content\<close> and \<open>reply_float\<close> is the value of \<^verbatim>\<open>float(result.content)\<close> (a number, an
  infinity or NaN), \<open>None\<close> when \<^verbatim>\<open>float\<close> raises \<^verbatim>\<open>ValueError\<close>.
\<close>

record llm_result =
  reply_text :: string
  reply_float :: "pyfloat option"

definition difficulty_entry :: "int \<Rightarrow> int \<Rightarrow> int \<Rightarrow> int \<Rightarrow> int \<Rightarrow> graph_state" where
  "difficulty_entry d t b s r =
     no_update\<lparr> difficulty := Some d, threads := Some t, beams := Some b,
                start := Some s, revisions := Some r \<rparr>"

definition difficulty_dict :: "(string \<times> graph_state) list" where
  "difficulty_dict =
     [(''1'', difficulty_entry 1 3 3 0 4),
      (''2'', difficulty_entry 2 5 3 0 3),
      (''3'', difficulty_entry 3 7 3 0 2),
      (''4'', difficulty_entry 4 9 3 0 1)]"

text \<open>\<^verbatim>\<open>difficulty_dict[difficulty]\<close>: a reply that is not a key raises \<^verbatim>\<open>KeyError\<close>.\<close>

definition difficulty_lookup :: "string \<Rightarrow> error + graph_state" where
  "difficulty_lookup d =
     (case map_of difficulty_dict d of None \<Rightarrow> Inl (KeyError d) | Some cfg \<Rightarrow> Inr cfg)"

text \<open>
  The three list comprehensions over \<^verbatim>\<open>response["content"][0]\<close> (text, comments, score),
  each over all responses in order.
\<close>

fun first_texts :: "thread list \<Rightarrow> error + string list" where
  "first_texts [] = Inr []"
| "first_texts (x # xs) =
     (case py_index (content x) 0 of
        Inl e \<Rightarrow> Inl e
      | Inr r \<Rightarrow> (case first_texts xs of Inl e \<Rightarrow> Inl e | Inr ts \<Rightarrow> Inr (resp_text r # ts)))"

fun first_comments :: "thread list \<Rightarrow> error + string list" where
  "first_comments [] = Inr []"
| "first_comments (x # xs) =
     (case py_index (content x) 0 of
        Inl e \<Rightarrow> Inl e
      | Inr r \<Rightarrow>
     (case comments r of
        None \<Rightarrow> Inl (KeyError ''comments'')
      | Some c \<Rightarrow> (case first_comments xs of Inl e \<Rightarrow> Inl e | Inr cs \<Rightarrow> Inr (c # cs))))"

fun first_scores :: "thread list \<Rightarrow> error + pyfloat list" where
  "first_scores [] = Inr []"
| "first_scores (x # xs) =
     (case py_index (content x) 0 of
        Inl e \<Rightarrow> Inl e
      | Inr r \<Rightarrow>
     (case score r of
        None \<Rightarrow> Inl (KeyError ''score'')
      | Some g \<Rightarrow> (case first_scores xs of Inl e \<Rightarrow> Inl e | Inr gs \<Rightarrow> Inr (g # gs))))"

definition create_difficulty_agent :: "graph_state \<Rightarrow> llm_result \<Rightarrow> error + graph_state" where
  "create_difficulty_agent st result =
     (case question st of
        None \<Rightarrow> Inl (KeyError ''question'')
      | Some q \<Rightarrow>
     (case responses st of
        None \<Rightarrow> Inl (KeyError ''responses'')
      | Some responses_full \<Rightarrow>
     (case first_texts responses_full of
        Inl e \<Rightarrow> Inl e
      | Inr texts \<Rightarrow>
     (case first_comments responses_full of
        Inl e \<Rightarrow> Inl e
      | Inr cs \<Rightarrow>
     (case first_scores responses_full of
        Inl e \<Rightarrow> Inl e
      | Inr grades \<Rightarrow>
          (if length texts < 3 then Inl IndexError
           else difficulty_lookup (reply_text result)))))))"


section \<open>Nodes of the main graph (\<^verbatim>\<open>upper_agents\<close>)\<close>

definition ask_question :: "graph_state \<Rightarrow> error + graph_state" where
  "ask_question st =
     Inr (no_update\<lparr> initial_response_agent := Some ''GPT'', responses := Some [],
                     threads := Some 3, start := Some 1 \<rparr>)"

text \<open>
  The two generation subgraphs (\<^verbatim>\<open>graph_initial\<close>, \<^verbatim>\<open>graph_revision\<close>) dispatch from \<^verbatim>\<open>START\<close>
  on the sender, which must be one of the three configured backends; their model calls
  and tool loop are outside the state of the main graph and deliver \<^verbatim>\<open>final_answer\<close>.
\<close>

definition backends :: "string list" where
  "backends = [''GPT'', ''Claude'', ''Mistral'']"

definition join_graph :: "string \<Rightarrow> graph_state" where
  "join_graph final_answer =
     no_update\<lparr> cur_response :=
       Some \<lparr> resp_text = final_answer, comments = None, score = None \<rparr> \<rparr>"

definition generation_chain :: "string \<Rightarrow> llm_result \<Rightarrow> error + graph_state" where
  "generation_chain sender result =
     (if sender \<in> set backends then Inr (join_graph (reply_text result))
      else Inl (KeyError sender))"

definition get_info_for_initial_response :: "graph_state \<Rightarrow> error + string \<times> string" where
  "get_info_for_initial_response st =
     (case initial_response_agent st of
        None \<Rightarrow> Inl (KeyError ''initial_response_agent'')
      | Some agent \<Rightarrow>
     (case question st of
        None \<Rightarrow> Inl (KeyError ''question'')
      | Some q \<Rightarrow> Inr (q, agent)))"

definition get_initial_response :: "graph_state \<Rightarrow> llm_result \<Rightarrow> error + graph_state" where
  "get_initial_response st result =
     (case get_info_for_initial_response st of
        Inl e \<Rightarrow> Inl e
      | Inr (q, agent) \<Rightarrow> generation_chain agent result)"

definition get_info_for_revision_response ::
  "graph_state \<Rightarrow> error + string \<times> string \<times> string \<times> string" where
  "get_info_for_revision_response st =
     (case responses st of
        None \<Rightarrow> Inl (KeyError ''responses'')
      | Some rs \<Rightarrow>
     (case index st of
        None \<Rightarrow> Inl (KeyError ''index'')
      | Some i \<Rightarrow>
     (case py_index rs i of
        Inl e \<Rightarrow> Inl e
      | Inr cur \<Rightarrow>
     (case question st of
        None \<Rightarrow> Inl (KeyError ''question'')
      | Some q \<Rightarrow>
     (case py_index (content cur) (- 1) of
        Inl e \<Rightarrow> Inl e
      | Inr r \<Rightarrow>
     (case comments r of
        None \<Rightarrow> Inl (KeyError ''comments'')
      | Some c \<Rightarrow> Inr (q, agent_name cur, resp_text r, c)))))))"

definition get_revision_response :: "graph_state \<Rightarrow> llm_result \<Rightarrow> error + graph_state" where
  "get_revision_response st result =
     (case get_info_for_revision_response st of
        Inl e \<Rightarrow> Inl e
      | Inr (q, agent, previous, c) \<Rightarrow> generation_chain agent result)"

definition create_commenter_agent :: "graph_state \<Rightarrow> llm_result \<Rightarrow> error + graph_state" where
  "create_commenter_agent st result =
     (case question st of
        None \<Rightarrow> Inl (KeyError ''question'')
      | Some q \<Rightarrow>
     (case cur_response st of
        None \<Rightarrow> Inl (KeyError ''agent_response'')
      | Some r \<Rightarrow>
          Inr (no_update\<lparr> cur_response := Some (r\<lparr> comments := Some (reply_text result) \<rparr>) \<rparr>)))"

definition create_scorer_agent :: "graph_state \<Rightarrow> llm_result \<Rightarrow> error + graph_state" where
  "create_scorer_agent st result =
     (case question st of
        None \<Rightarrow> Inl (KeyError ''question'')
      | Some q \<Rightarrow>
     (case cur_response st of
        None \<Rightarrow> Inl (KeyError ''agent_response'')
      | Some r \<Rightarrow>
     (case comments r of
        None \<Rightarrow> Inl (KeyError ''comments'')
      | Some c \<Rightarrow>
     (case reply_float result of
        None \<Rightarrow> Inl ValueError
      | Some f \<Rightarrow> Inr (no_update\<lparr> cur_response := Some (r\<lparr> score := Some f \<rparr>) \<rparr>)))))"

definition agent_name_dict :: "(string \<times> string) list" where
  "agent_name_dict = [(''GPT'', ''Claude''), (''Claude'', ''Mistral''), (''Mistral'', ''GPT'')]"

definition initial_response_handler :: "graph_state \<Rightarrow> error + graph_state" where
  "initial_response_handler st =
     (case cur_response st of
        None \<Rightarrow> Inl (KeyError ''agent_response'')
      | Some r \<Rightarrow>
     (case initial_response_agent st of
        None \<Rightarrow> Inl (KeyError ''initial_response_agent'')
      | Some name \<Rightarrow>
     (case responses st of
        None \<Rightarrow> Inl (KeyError ''responses'')
      | Some rs \<Rightarrow>
     (case map_of agent_name_dict name of
        None \<Rightarrow> Inl (KeyError name)
      | Some next_name \<Rightarrow>
          Inr (no_update\<lparr>
            responses := Some (rs @ [\<lparr> agent_name = name, content = [r] \<rparr>]),
            initial_response_agent := Some next_name \<rparr>)))))"

text \<open>\<^verbatim>\<open>responses[index]["content"].append(agent_response)\<close>, in place.\<close>

definition revised_response_handler :: "graph_state \<Rightarrow> error + graph_state" where
  "revised_response_handler st =
     (case cur_response st of
        None \<Rightarrow> Inl (KeyError ''agent_response'')
      | Some r \<Rightarrow>
     (case index st of
        None \<Rightarrow> Inl (KeyError ''index'')
      | Some i \<Rightarrow>
     (case responses st of
        None \<Rightarrow> Inl (KeyError ''responses'')
      | Some rs \<Rightarrow>
     (case py_position rs i of
        Inl e \<Rightarrow> Inl e
      | Inr j \<Rightarrow>
          Inr (no_update\<lparr>
            responses := Some (rs[j := (rs ! j)\<lparr> content := content (rs ! j) @ [r] \<rparr>]),
            index := Some (i + 1) \<rparr>)))))"

text \<open>
  The convergence check and the final summary hand the question and every thread's whole
  \<^verbatim>\<open>content\<close> list to the model (\<^verbatim>\<open>str(responses)\<close> inside the human message; the system
  message is a constant) and build their update from the reply. What \<^verbatim>\<open>llm.invoke\<close> answers
  is not fixed by the prompt (the chat model samples), so such a node is modelled as the
  call it makes: the input it sends, and the update it returns for each possible reply.
\<close>

type_synonym chains_prompt = "string \<times> agent_response list list"

datatype 'a invoke = Invoke (sent: chains_prompt) (on_reply: "string \<Rightarrow> 'a")

definition chains_input :: "graph_state \<Rightarrow> error + chains_prompt" where
  "chains_input st =
     (case question st of
        None \<Rightarrow> Inl (KeyError ''question'')
      | Some q \<Rightarrow>
     (case responses st of
        None \<Rightarrow> Inl (KeyError ''responses'')
      | Some rs \<Rightarrow> Inr (q, map content rs)))"

definition create_check_done_agent :: "graph_state \<Rightarrow> error + graph_state invoke" where
  "create_check_done_agent st =
     (case chains_input st of
        Inl e \<Rightarrow> Inl e
      | Inr prompt2 \<Rightarrow>
          Inr (Invoke prompt2 (\<lambda>reply. no_update\<lparr> done_flag := Some (reply = ''PROCESS DONE'') \<rparr>)))"

definition create_final_summary_agent :: "graph_state \<Rightarrow> error + graph_state invoke" where
  "create_final_summary_agent st =
     (case chains_input st of
        Inl e \<Rightarrow> Inl e
      | Inr prompt3 \<Rightarrow>
          Inr (Invoke prompt3 (\<lambda>reply. no_update\<lparr> final_response := Some reply \<rparr>)))"

text \<open>A node that calls the model, run with the reply the model gave.\<close>

definition answered :: "(error + 'a invoke) \<Rightarrow> string \<Rightarrow> error + 'a" where
  "answered call reply = (case call of Inl e \<Rightarrow> Inl e | Inr c \<Rightarrow> Inr (on_reply c reply))"

section \<open>Routers (\<^verbatim>\<open>agent.py\<close>)\<close>

definition initial_response_router :: "graph_state \<Rightarrow> error + string" where
  "initial_response_router st =
     (case start st of
        None \<Rightarrow> Inl (KeyError ''start'')
      | Some s \<Rightarrow>
     (case responses st of
        None \<Rightarrow> Inl (KeyError ''responses'')
      | Some rs \<Rightarrow>
     (case threads st of
        None \<Rightarrow> Inl (KeyError ''threads'')
      | Some n \<Rightarrow>
          (if int (length rs) < n then Inr ''get_initial_response''
           else if s \<noteq> 0 then Inr ''difficulty_assessment''
           else Inr ''beam_search_agent''))))"

definition difficulty_router :: "graph_state \<Rightarrow> error + string" where
  "difficulty_router st =
     (case responses st of
        None \<Rightarrow> Inl (KeyError ''responses'')
      | Some rs \<Rightarrow>
     (case threads st of
        None \<Rightarrow> Inl (KeyError ''threads'')
      | Some n \<Rightarrow>
          (if int (length rs) < n then Inr ''get_initial_response''
           else Inr ''beam_search_agent'')))"

definition revision_router :: "graph_state \<Rightarrow> error + string" where
  "revision_router st =
     (case index st of
        None \<Rightarrow> Inl (KeyError ''index'')
      | Some i \<Rightarrow>
     (case threads st of
        None \<Rightarrow> Inl (KeyError ''threads'')
      | Some n \<Rightarrow>
     (case revisions st of
        None \<Rightarrow> Inl (KeyError ''revisions'')
      | Some budget \<Rightarrow>
     (case responses st of
        None \<Rightarrow> Inl (KeyError ''responses'')
      | Some rs \<Rightarrow>
     (case py_index rs (- 1) of
        Inl e \<Rightarrow> Inl e
      | Inr final_thread \<Rightarrow>
          (if int (length (content final_thread)) = budget + 1 then Inr ''summary''
           else if i = n then Inr ''check_done''
           else Inr ''get_revision_response''))))))"

definition scorer_router :: "graph_state \<Rightarrow> error + string" where
  "scorer_router st =
     (case start st of
        None \<Rightarrow> Inl (KeyError ''start'')
      | Some s \<Rightarrow>
     (case threads st of
        None \<Rightarrow> Inl (KeyError ''threads'')
      | Some n \<Rightarrow>
     (case responses st of
        None \<Rightarrow> Inl (KeyError ''responses'')
      | Some rs \<Rightarrow>
          (if s \<noteq> 0 \<or> int (length rs) < n then Inr ''initial_response_handler''
           else Inr ''revised_response_handler''))))"

definition done_router :: "graph_state \<Rightarrow> error + string" where
  "done_router st =
     (case done_flag st of
        None \<Rightarrow> Inl (KeyError ''done'')
      | Some d \<Rightarrow> (if d then Inr ''__end__'' else Inr ''continue''))"


section \<open>The main graph (\<^verbatim>\<open>agent.py\<close>)\<close>

datatype node =
    AskQuestion
  | GetInitialResponse
  | GetRevisionResponse
  | DifficultyAssessment
  | Commenter
  | Scorer
  | CheckDone
  | FinalSummary
  | BeamSearchAgent
  | InitialResponseHandler
  | RevisedResponseHandler
  | END

text \<open>
  The function registered for each node by \<^verbatim>\<open>graph.add_node\<close>, applied to the state and to
  the result of the model call the node makes (ignored by the nodes that make none).
\<close>

definition run_node :: "node \<Rightarrow> graph_state \<Rightarrow> llm_result \<Rightarrow> error + graph_state" where
  "run_node nd st result =
     (case nd of
        AskQuestion \<Rightarrow> ask_question st
      | GetInitialResponse \<Rightarrow> get_initial_response st result
      | GetRevisionResponse \<Rightarrow> get_revision_response st result
      | DifficultyAssessment \<Rightarrow> create_difficulty_agent st result
      | Commenter \<Rightarrow> create_commenter_agent st result
      | Scorer \<Rightarrow> create_scorer_agent st result
      | CheckDone \<Rightarrow> answered (create_check_done_agent st) (reply_text result)
      | FinalSummary \<Rightarrow> answered (create_final_summary_agent st) (reply_text result)
      | BeamSearchAgent \<Rightarrow> beam_search_agent st
      | InitialResponseHandler \<Rightarrow> initial_response_handler st
      | RevisedResponseHandler \<Rightarrow> revised_response_handler st
      | END \<Rightarrow> Inr no_update)"

text \<open>
  A conditional edge: the router's label is looked up in the edge's path map; a label
  without a destination is fatal.
\<close>

definition conditional_edge ::
  "(graph_state \<Rightarrow> error + string) \<Rightarrow> (string \<times> node) list \<Rightarrow> graph_state \<Rightarrow> error + node" where
  "conditional_edge router path_map st =
     (case router st of
        Inl e \<Rightarrow> Inl e
      | Inr label \<Rightarrow>
          (case map_of path_map label of None \<Rightarrow> Inl (KeyError label) | Some nd \<Rightarrow> Inr nd))"

text \<open>The edges of \<^verbatim>\<open>graph\<close>, in the order \<^verbatim>\<open>agent.py\<close> adds them.\<close>

definition next_node :: "node \<Rightarrow> graph_state \<Rightarrow> error + node" where
  "next_node nd st =
     (case nd of
        AskQuestion \<Rightarrow> Inr GetInitialResponse
      | GetInitialResponse \<Rightarrow> Inr Commenter
      | Commenter \<Rightarrow> Inr Scorer
      | Scorer \<Rightarrow>
          conditional_edge scorer_router
            [(''initial_response_handler'', InitialResponseHandler),
             (''revised_response_handler'', RevisedResponseHandler)] st
      | InitialResponseHandler \<Rightarrow>
          conditional_edge initial_response_router
            [(''get_initial_response'', GetInitialResponse),
             (''difficulty_assessment'', DifficultyAssessment),
             (''beam_search_agent'', BeamSearchAgent)] st
      | DifficultyAssessment \<Rightarrow>
          conditional_edge difficulty_router
            [(''get_initial_response'', GetInitialResponse),
             (''beam_search_agent'', BeamSearchAgent)] st
      | BeamSearchAgent \<Rightarrow> Inr GetRevisionResponse
      | GetRevisionResponse \<Rightarrow> Inr Commenter
      | RevisedResponseHandler \<Rightarrow>
          conditional_edge revision_router
            [(''get_revision_response'', GetRevisionResponse),
             (''check_done'', CheckDone),
             (''summary'', FinalSummary)] st
      | CheckDone \<Rightarrow>
          conditional_edge done_router
            [(''continue'', BeamSearchAgent), (''__end__'', FinalSummary)] st
      | FinalSummary \<Rightarrow> Inr END
      | END \<Rightarrow> Inr END)"

text \<open>
  One step of the engine: run the node, merge its update into the state, then follow the
  node's outgoing edge on the merged state.
\<close>

definition step :: "llm_result \<Rightarrow> node \<times> graph_state \<Rightarrow> error + node \<times> graph_state" where
  "step result cfg =
     (case run_node (fst cfg) (snd cfg) result of
        Inl e \<Rightarrow> Inl e
      | Inr upd \<Rightarrow>
          (let st' = merge_update upd (snd cfg)
           in case next_node (fst cfg) st' of Inl e \<Rightarrow> Inl e | Inr nd' \<Rightarrow> Inr (nd', st')))"

text \<open>
  A run fed with the results of its successive model calls; it stops at \<^verbatim>\<open>END\<close>, at the
  first exception, or when the supplied results are used up.
\<close>

fun exec :: "llm_result list \<Rightarrow> node \<times> graph_state \<Rightarrow> error + node \<times> graph_state" where
  "exec [] cfg = Inr cfg"
| "exec (result # results) cfg =
     (if fst cfg = END then Inr cfg
      else case step result cfg of Inl e \<Rightarrow> Inl e | Inr cfg' \<Rightarrow> exec results cfg')"

text \<open>
  The configurations a run can be in: it enters at \<^verbatim>\<open>ask_question\<close> with whatever state the
  caller passes, and every model call may return anything.
\<close>

inductive reachable :: "node \<times> graph_state \<Rightarrow> bool" where
  entry: "reachable (AskQuestion, st)"
| move: "reachable cfg \<Longrightarrow> fst cfg \<noteq> END \<Longrightarrow> step result cfg = Inr cfg' \<Longrightarrow> reachable cfg'"


text \<open>A node's call as the engine sees it: the state after the node's update is merged.\<close>

definition apply_node ::
  "(graph_state \<Rightarrow> error + graph_state) \<Rightarrow> graph_state \<Rightarrow> error + graph_state" where
  "apply_node f st = (case f st of Inl e \<Rightarrow> Inl e | Inr upd \<Rightarrow> Inr (merge_update upd st))"

section \<open>Example populations\<close>

definition mk_thread :: "string \<Rightarrow> rat \<Rightarrow> thread" where
  "mk_thread name s = \<lparr> agent_name = name,
     content = [\<lparr> resp_text = name, comments = Some ''ok'', score = Some (Finite s) \<rparr>] \<rparr>"

text \<open>
  Five threads A to E scored 9, 8, 7, 6, 5, with \<^verbatim>\<open>beams = 3\<close> and \<^verbatim>\<open>threads = 5\<close>, and a
  thread Z discarded by an earlier selection.
\<close>

definition scenario_B_threads :: "thread list" where
  "scenario_B_threads =
     [mk_thread ''A'' 9, mk_thread ''B'' 8, mk_thread ''C'' 7, mk_thread ''D'' 6,
      mk_thread ''E'' 5]"

definition scenario_B :: graph_state where
  "scenario_B = no_update\<lparr>
     responses := Some scenario_B_threads,
     threads := Some 5, beams := Some 3,
     discarded_responses := Some [mk_thread ''Z'' 1] \<rparr>"

text \<open>Four threads of which the second and the fourth tie for the best score.\<close>

definition tie_threads :: "thread list" where
  "tie_threads = [mk_thread ''P'' 5, mk_thread ''Q'' 8, mk_thread ''R'' 6, mk_thread ''S'' 8]"

definition tie_state :: graph_state where
  "tie_state = no_update\<lparr> responses := Some tie_threads, threads := Some 4, beams := Some 3 \<rparr>"

text \<open>
  Three threads scored 1, NaN and 9 (the scorer's reply to the second was \<^verbatim>\<open>nan\<close>), with
  \<^verbatim>\<open>beams = 1\<close> and \<^verbatim>\<open>threads = 3\<close>. No score is \<^verbatim>\<open><\<close> the one after it in the reversed list, so
  \<^verbatim>\<open>list.sort\<close> finds one run and leaves the list as it is.
\<close>

definition nan_thread :: "string \<Rightarrow> thread" where
  "nan_thread name = \<lparr> agent_name = name,
     content = [\<lparr> resp_text = name, comments = Some ''ok'', score = Some NaN \<rparr>] \<rparr>"

definition nan_threads :: "thread list" where
  "nan_threads = [mk_thread ''A'' 1, nan_thread ''B'', mk_thread ''C'' 9]"

definition nan_state :: graph_state where
  "nan_state = no_update\<lparr> responses := Some nan_threads, threads := Some 3, beams := Some 1 \<rparr>"

text \<open>The run parameters a difficulty entry sets.\<close>

definition difficulty_params :: "graph_state \<Rightarrow> int option \<times> int option \<times> int option" where
  "difficulty_params cfg = (threads cfg, beams cfg, revisions cfg)"

text \<open>The history lengths of the threads of a state, in order.\<close>

definition history_lengths :: "graph_state \<Rightarrow> nat list" where
  "history_lengths st =
     (case responses st of None \<Rightarrow> [] | Some rs \<Rightarrow> map (\<lambda>x. length (content x)) rs)"

definition mk_response :: "string \<Rightarrow> rat \<Rightarrow> agent_response" where
  "mk_response t s = \<lparr> resp_text = t, comments = Some ''ok'', score = Some (Finite s) \<rparr>"

definition revised :: "thread \<Rightarrow> agent_response \<Rightarrow> thread" where
  "revised x r = x\<lparr> content := content x @ [r] \<rparr>"

text \<open>
  Scenario C: budget 1, five threads, the first two already revised in this round, the
  cursor at thread 2, whose scored revision is waiting in \<^verbatim>\<open>agent_response\<close>.
\<close>

definition scenario_C :: graph_state where
  "scenario_C = no_update\<lparr>
     question := Some ''q'',
     responses := Some [revised (mk_thread ''A'' 9) (mk_response ''A2'' 9),
                        revised (mk_thread ''B'' 8) (mk_response ''B2'' 9),
                        mk_thread ''C'' 7, mk_thread ''A'' 9, mk_thread ''B'' 8],
     threads := Some 5, start := Some 0, beams := Some 3, revisions := Some 1,
     index := Some 2,
     cur_response := Some (mk_response ''C2'' 8) \<rparr>"

text \<open>The same round at its last thread: the cursor at thread 4, the other four revised.\<close>

definition round_end :: graph_state where
  "round_end = no_update\<lparr>
     question := Some ''q'',
     responses := Some [revised (mk_thread ''A'' 9) (mk_response ''A2'' 9),
                        revised (mk_thread ''B'' 8) (mk_response ''B2'' 9),
                        revised (mk_thread ''C'' 7) (mk_response ''C2'' 8),
                        revised (mk_thread ''A'' 9) (mk_response ''A3'' 9),
                        mk_thread ''B'' 8],
     threads := Some 5, start := Some 0, beams := Some 3, revisions := Some 1,
     index := Some 4,
     cur_response := Some (mk_response ''B3'' 8) \<rparr>"

definition any_result :: llm_result where
  "any_result = \<lparr> reply_text = ''r'', reply_float = Some (Finite 7) \<rparr>"

text \<open>
  Two populations that agree on the final entry of every thread and differ in an earlier
  entry only.
\<close>

definition summary_state :: "string \<Rightarrow> graph_state" where
  "summary_state first_text = no_update\<lparr>
     question := Some ''q'',
     responses := Some [\<lparr> agent_name = ''GPT'',
        content = [mk_response first_text 5, mk_response ''final'' 9] \<rparr>] \<rparr>"

section \<open>Shape of the population along a run\<close>

text \<open>
  The facts about the state that the graph maintains from node to node. \<open>uniform L\<close>: every
  thread's history has length \<open>L\<close>. \<open>round_shape L i\<close>: inside a revision round with the
  cursor at \<open>i\<close>, the threads before the cursor have been revised (length \<open>L + 1\<close>), the
  others not yet (length \<open>L\<close>).
\<close>

definition uniform :: "nat \<Rightarrow> thread list \<Rightarrow> bool" where
  "uniform L rs = list_all (\<lambda>x. length (content x) = L) rs"

definition round_shape :: "nat \<Rightarrow> nat \<Rightarrow> thread list \<Rightarrow> bool" where
  "round_shape L i rs =
     (map (\<lambda>x. length (content x)) rs = replicate i (Suc L) @ replicate (length rs - i) L)"

definition configured :: "graph_state \<Rightarrow> int \<Rightarrow> bool" where
  "configured st n = (start st = Some 0 \<and> beams st = Some 3 \<and> threads st = Some n \<and> 3 \<le> n)"

definition initial_phase :: "graph_state \<Rightarrow> bool" where
  "initial_phase st =
     (\<exists>rs n s. responses st = Some rs \<and> threads st = Some n \<and> start st = Some s \<and>
        uniform 1 rs \<and> int (length rs) < n \<and>
        (if s = 0 then beams st = Some 3 \<and> 3 \<le> n else n = 3))"

definition assessing :: "graph_state \<Rightarrow> bool" where
  "assessing st = (\<exists>rs. responses st = Some rs \<and> length rs = 3 \<and> uniform 1 rs)"

definition selecting :: "graph_state \<Rightarrow> bool" where
  "selecting st =
     (\<exists>rs n L. responses st = Some rs \<and> configured st n \<and> int (length rs) = n \<and> uniform L rs)"

definition revision_phase :: "graph_state \<Rightarrow> bool" where
  "revision_phase st =
     (\<exists>rs n L i. responses st = Some rs \<and> configured st n \<and> int (length rs) = n \<and>
        index st = Some (int i) \<and> i < length rs \<and> round_shape L i rs)"

fun graph_invariant :: "node \<times> graph_state \<Rightarrow> bool" where
  "graph_invariant (AskQuestion, st) = True"
| "graph_invariant (GetInitialResponse, st) = initial_phase st"
| "graph_invariant (InitialResponseHandler, st) = initial_phase st"
| "graph_invariant (DifficultyAssessment, st) = assessing st"
| "graph_invariant (Commenter, st) = (initial_phase st \<or> revision_phase st)"
| "graph_invariant (Scorer, st) = (initial_phase st \<or> revision_phase st)"
| "graph_invariant (BeamSearchAgent, st) = selecting st"
| "graph_invariant (GetRevisionResponse, st) = revision_phase st"
| "graph_invariant (RevisedResponseHandler, st) = revision_phase st"
| "graph_invariant (CheckDone, st) = selecting st"
| "graph_invariant (FinalSummary, st) = True"
| "graph_invariant (END, st) = True"

text \<open>
  A run on an easy question: every model call answers \<^verbatim>\<open>1\<close> (as a text, as a score and as
  the difficulty tier), so three threads are generated, selected and revised once.
\<close>

definition tier1_result :: llm_result where
  "tier1_result = \<lparr> reply_text = ''1'', reply_float = Some (Finite 1) \<rparr>"

definition first_round :: "error + node \<times> graph_state" where
  "first_round =
     exec (replicate 27 tier1_result) (AskQuestion, no_update\<lparr> question := Some ''q'' \<rparr>)"

text \<open>The nodes that only write \<^verbatim>\<open>agent_response\<close>, \<^verbatim>\<open>done\<close> or \<^verbatim>\<open>final_response\<close>.\<close>

definition same_shape :: "graph_state \<Rightarrow> graph_state \<Rightarrow> bool" where
  "same_shape st' st =
     (responses st' = responses st \<and> threads st' = threads st \<and> start st' = start st \<and>
      beams st' = beams st \<and> index st' = index st)"

section \<open>Store model of the deep copies\<close>

text \<open>
  Whether two threads share their history is not visible on values, so the selection step
  is modelled a second time over an explicit store. Dicts and lists are objects at
  addresses; strings and numbers are immutable values held inside them. A thread dict
  refers to its \<^verbatim>\<open>content\<close> list, the list refers to the response dicts. The store is the
  list of all objects allocated so far, an object's address being its position, so a new
  object is allocated at the end.
\<close>

datatype obj =
    ThreadDict string nat
  | ContentList "nat list"
  | ResponseDict agent_response

type_synonym store = "obj list"

definition thread_fields :: "store \<Rightarrow> nat \<Rightarrow> error + string \<times> nat" where
  "thread_fields h a =
     (if a < length h
      then (case h ! a of ThreadDict name c \<Rightarrow> Inr (name, c) | _ \<Rightarrow> Inl BadReference)
      else Inl BadReference)"

definition list_items :: "store \<Rightarrow> nat \<Rightarrow> error + nat list" where
  "list_items h a =
     (if a < length h
      then (case h ! a of ContentList items \<Rightarrow> Inr items | _ \<Rightarrow> Inl BadReference)
      else Inl BadReference)"

definition response_value :: "store \<Rightarrow> nat \<Rightarrow> error + agent_response" where
  "response_value h a =
     (if a < length h
      then (case h ! a of ResponseDict r \<Rightarrow> Inr r | _ \<Rightarrow> Inl BadReference)
      else Inl BadReference)"

fun response_values :: "store \<Rightarrow> nat list \<Rightarrow> error + agent_response list" where
  "response_values h [] = Inr []"
| "response_values h (a # as) =
     (case response_value h a of
        Inl e \<Rightarrow> Inl e
      | Inr r \<Rightarrow> (case response_values h as of Inl e \<Rightarrow> Inl e | Inr rs \<Rightarrow> Inr (r # rs)))"

text \<open>The value of the thread at an address: what the program reads through it.\<close>

definition thread_value :: "store \<Rightarrow> nat \<Rightarrow> error + thread" where
  "thread_value h t =
     (case thread_fields h t of
        Inl e \<Rightarrow> Inl e
      | Inr (name, c) \<Rightarrow>
     (case list_items h c of
        Inl e \<Rightarrow> Inl e
      | Inr items \<Rightarrow>
     (case response_values h items of
        Inl e \<Rightarrow> Inl e
      | Inr rs \<Rightarrow> Inr \<lparr> agent_name = name, content = rs \<rparr>)))"

fun thread_values :: "store \<Rightarrow> nat list \<Rightarrow> error + thread list" where
  "thread_values h [] = Inr []"
| "thread_values h (t # ts) =
     (case thread_value h t of
        Inl e \<Rightarrow> Inl e
      | Inr x \<Rightarrow> (case thread_values h ts of Inl e \<Rightarrow> Inl e | Inr xs \<Rightarrow> Inr (x # xs)))"

text \<open>
  The objects a thread is made of: its dict, its \<^verbatim>\<open>content\<close> list and the response dicts in
  it. Every mutation of the thread or of its history is a write to one of them.
\<close>

definition footprint :: "store \<Rightarrow> nat \<Rightarrow> nat list" where
  "footprint h t =
     (case thread_fields h t of
        Inl e \<Rightarrow> [t]
      | Inr (name, c) \<Rightarrow>
          (case list_items h c of Inl e \<Rightarrow> [t, c] | Inr items \<Rightarrow> t # c # items))"

text \<open>
  \<^verbatim>\<open>copy.deepcopy\<close> of a thread dict. The items of the list are copied in order; the memo
  of the call maps each response dict already copied to its copy, so a dict that occurs
  twice in the list is copied once. Then the new list and the new thread dict are
  allocated.
\<close>

fun copy_items ::
  "store \<Rightarrow> (nat \<times> nat) list \<Rightarrow> nat list \<Rightarrow> error + store \<times> (nat \<times> nat) list \<times> nat list" where
  "copy_items h memo [] = Inr (h, memo, [])"
| "copy_items h memo (a # as) =
     (case map_of memo a of
        Some a' \<Rightarrow>
          (case copy_items h memo as of
             Inl e \<Rightarrow> Inl e
           | Inr (h', memo', bs) \<Rightarrow> Inr (h', memo', a' # bs))
      | None \<Rightarrow>
          (case response_value h a of
             Inl e \<Rightarrow> Inl e
           | Inr r \<Rightarrow>
               (case copy_items (h @ [ResponseDict r]) ((a, length h) # memo) as of
                  Inl e \<Rightarrow> Inl e
                | Inr (h', memo', bs) \<Rightarrow> Inr (h', memo', length h # bs))))"

definition deepcopy :: "store \<Rightarrow> nat \<Rightarrow> error + store \<times> nat" where
  "deepcopy h t =
     (case thread_fields h t of
        Inl e \<Rightarrow> Inl e
      | Inr (name, c) \<Rightarrow>
     (case list_items h c of
        Inl e \<Rightarrow> Inl e
      | Inr items \<Rightarrow>
     (case copy_items h [] items of
        Inl e \<Rightarrow> Inl e
      | Inr (h1, memo, items') \<Rightarrow>
          Inr (h1 @ [ContentList items', ThreadDict name (length h1)], Suc (length h1)))))"

text \<open>The sort of the list of thread addresses, by the keys read through the store.\<close>

definition sort_reverse_store :: "store \<Rightarrow> nat list \<Rightarrow> error + nat list" where
  "sort_reverse_store h xs =
     (case thread_values h xs of
        Inl e \<Rightarrow> Inl e
      | Inr vals \<Rightarrow>
     (case sort_keys vals of
        Inl e \<Rightarrow> Inl e
      | Inr ks \<Rightarrow> Inr (map snd (list_sort_reverse (zip ks xs)))))"

text \<open>The loops of \<^verbatim>\<open>beam_search_agent\<close> again, each \<^verbatim>\<open>copy.deepcopy\<close> allocating in the store.\<close>

fun append_copies_store :: "int list \<Rightarrow> nat \<Rightarrow> store \<Rightarrow> nat list \<Rightarrow> error + store \<times> nat list" where
  "append_copies_store [] response h acc = Inr (h, acc)"
| "append_copies_store (i # is) response h acc =
     (case deepcopy h response of
        Inl e \<Rightarrow> Inl e
      | Inr (h', t') \<Rightarrow> append_copies_store is response h' (acc @ [t']))"

fun clone_loop_store ::
  "int \<Rightarrow> int \<Rightarrow> nat list \<Rightarrow> store \<Rightarrow> nat list \<Rightarrow> error + store \<times> nat list" where
  "clone_loop_store n b [] h acc = Inr (h, acc)"
| "clone_loop_store n b (response # rest) h acc =
     (case py_floordiv n b of
        Inl e \<Rightarrow> Inl e
      | Inr q \<Rightarrow>
          (case append_copies_store (py_range q) response h acc of
             Inl e \<Rightarrow> Inl e
           | Inr (h', acc') \<Rightarrow> clone_loop_store n b rest h' acc'))"

fun extra_loop_store ::
  "nat list \<Rightarrow> int list \<Rightarrow> store \<Rightarrow> nat list \<Rightarrow> error + store \<times> nat list" where
  "extra_loop_store best [] h acc = Inr (h, acc)"
| "extra_loop_store best (i # is) h acc =
     (case py_index best i of
        Inl e \<Rightarrow> Inl e
      | Inr response \<Rightarrow>
          (case deepcopy h response of
             Inl e \<Rightarrow> Inl e
           | Inr (h', t') \<Rightarrow> extra_loop_store best is h' (acc @ [t'])))"

text \<open>
  \<^verbatim>\<open>beam_search_agent\<close> on the store, given the list held under \<^verbatim>\<open>responses\<close> and the values
  of \<^verbatim>\<open>beams\<close> and \<^verbatim>\<open>threads\<close>: it returns the new store, \<^verbatim>\<open>final_responses\<close> and
  \<^verbatim>\<open>bad_responses\<close>.
\<close>

definition beam_search_store ::
  "store \<Rightarrow> nat list \<Rightarrow> int \<Rightarrow> int \<Rightarrow> error + store \<times> nat list \<times> nat list" where
  "beam_search_store h responses_list b n =
     (case sort_reverse_store h responses_list of
        Inl e \<Rightarrow> Inl e
      | Inr sorted_rs \<Rightarrow>
     (let best_responses = slice_to sorted_rs b;
          bad_responses = slice_from sorted_rs b
      in
     (case clone_loop_store n b best_responses h [] of
        Inl e \<Rightarrow> Inl e
      | Inr (h1, acc) \<Rightarrow>
     (case py_mod n b of
        Inl e \<Rightarrow> Inl e
      | Inr r \<Rightarrow>
     (case extra_loop_store best_responses (py_range r) h1 acc of
        Inl e \<Rightarrow> Inl e
      | Inr (h2, final_responses) \<Rightarrow> Inr (h2, final_responses, bad_responses))))))"

text \<open>
  \<^verbatim>\<open>responses[index]["content"].append(agent_response)\<close> on the store: the list object of the
  thread is extended in place by the address of the response dict.
\<close>

definition append_to_history :: "store \<Rightarrow> nat \<Rightarrow> nat \<Rightarrow> error + store" where
  "append_to_history h t ra =
     (case thread_fields h t of
        Inl e \<Rightarrow> Inl e
      | Inr (name, c) \<Rightarrow>
     (case list_items h c of
        Inl e \<Rightarrow> Inl e
      | Inr items \<Rightarrow> Inr (h[c := ContentList (items @ [ra])])))"

text \<open>
  A store with two threads and a fresh response dict at address 6; with \<^verbatim>\<open>beams = 1\<close> and
  \<^verbatim>\<open>threads = 2\<close> the first thread is cloned twice.
\<close>

definition two_threads :: store where
  "two_threads =
     [ResponseDict (mk_response ''A'' 9), ContentList [0], ThreadDict ''GPT'' 1,
      ResponseDict (mk_response ''B'' 8), ContentList [3], ThreadDict ''Claude'' 4,
      ResponseDict (mk_response ''A2'' 7)]"

text \<open>
  What the memo of a deep copy satisfies: every copy recorded in it is an object allocated
  since the call began (at address \<open>base\<close> or later) that holds the value of its original.
\<close>

definition memo_ok :: "nat \<Rightarrow> store \<Rightarrow> (nat \<times> nat) list \<Rightarrow> bool" where
  "memo_ok base h memo =
     list_all (\<lambda>(a, a'). base \<le> a' \<and> a' < length h \<and>
                 (\<exists>r. response_value h a = Inr r \<and> response_value h a' = Inr r)) memo"

text \<open>
  The clones made so far are separate: they are distinct valid threads, each built from
  objects allocated at address \<open>base\<close> or later, and no object belongs to two of them.
\<close>

definition separate_clones :: "nat \<Rightarrow> store \<Rightarrow> nat list \<Rightarrow> bool" where
  "separate_clones base h acc =
     (distinct acc \<and>
      (\<forall>t\<in>set acc. (\<exists>x. thread_value h t = Inr x) \<and>
                    (\<forall>a\<in>set (footprint h t). base \<le> a \<and> a < length h)) \<and>
      (\<forall>t\<in>set acc. \<forall>u\<in>set acc. t \<noteq> u \<longrightarrow>
         set (footprint h t) \<inter> set (footprint h u) = {}))"

text \<open>The store after that selection: two clones of the first thread, at 9 and 12.\<close>

definition two_threads_selected :: store where
  "two_threads_selected = two_threads @
     [ResponseDict (mk_response ''A'' 9), ContentList [7], ThreadDict ''GPT'' 8,
      ResponseDict (mk_response ''A'' 9), ContentList [10], ThreadDict ''GPT'' 11]"

section \<open>Properties of the selection step\<close>

lemma py_index_last: "xs \<noteq> [] \<Longrightarrow> py_index xs (- 1) = Inr (last xs)"
proof -
  assume ne: "xs \<noteq> []"
  then have pos: "0 < length xs" by simp
  then have "nat (int (length xs) + - 1) = length xs - 1" by linarith
  moreover have "- int (length xs) \<le> - 1" using pos by linarith
  ultimately show ?thesis
    using ne by (simp add: py_index_def py_position_def last_conv_nth)
qed

lemma py_index_empty: "py_index [] i = Inl IndexError"
  by (simp add: py_index_def py_position_def)

lemma latest_score_scored: "scored x \<Longrightarrow> latest_score x = Inr (score_of x)"
  by (auto simp: latest_score_def scored_def score_of_def py_index_last)

lemma sort_keys_scored:
  "\<forall>x\<in>set xs. scored x \<Longrightarrow> sort_keys xs = Inr (map score_of xs)"
  by (induction xs) (simp_all add: latest_score_scored)

subsection \<open>The comparison of floats\<close>

lemma float_lt_irrefl: "\<not> float_lt a a"
  by (cases a) simp_all

lemma float_lt_asym: "float_lt a b \<Longrightarrow> \<not> float_lt b a"
  by (cases a; cases b) simp_all

lemma float_lt_trans: "float_lt a b \<Longrightarrow> float_lt b c \<Longrightarrow> float_lt a c"
  by (cases a; cases b; cases c) simp_all

lemma float_lt_total: "a \<noteq> NaN \<Longrightarrow> b \<noteq> NaN \<Longrightarrow> float_lt a b \<or> a = b \<or> float_lt b a"
  by (cases a; cases b) auto

lemma float_ge_trans:
  assumes "a \<noteq> NaN" "b \<noteq> NaN" "c \<noteq> NaN" "\<not> float_lt a b" "\<not> float_lt b c"
  shows "\<not> float_lt a c"
  using assms by (cases a; cases b; cases c) simp_all

subsection \<open>The sort\<close>

lemma mset_insert_desc: "mset (insert_desc p ps) = add_mset p (mset ps)"
  by (induction ps) simp_all

lemma mset_list_sort_reverse: "mset (list_sort_reverse ps) = mset ps"
  by (induction ps) (simp_all add: mset_insert_desc)

lemma set_list_sort_reverse: "set (list_sort_reverse ps) = set ps"
  using mset_list_sort_reverse[of ps] by (metis set_mset_mset)

lemma filter_insert_desc:
  "filter (\<lambda>q. fst q = k) (insert_desc p ps) = filter (\<lambda>q. fst q = k) (p # ps)"
  by (induction ps) (auto simp: float_lt_irrefl)

lemma filter_list_sort_reverse:
  "filter (\<lambda>q. fst q = k) (list_sort_reverse ps) = filter (\<lambda>q. fst q = k) ps"
  by (induction ps) (simp_all add: filter_insert_desc)

lemma sorted_insert_desc:
  assumes "sorted_wrt (\<lambda>p q. \<not> float_lt (fst p) (fst q)) ps"
    and "fst p \<noteq> NaN" and "\<forall>q\<in>set ps. fst q \<noteq> NaN"
  shows "sorted_wrt (\<lambda>p q. \<not> float_lt (fst p) (fst q)) (insert_desc p ps)"
  using assms
proof (induction ps)
  case Nil
  show ?case by simp
next
  case (Cons q qs)
  show ?case
  proof (cases "float_lt (fst p) (fst q)")
    case True
    have tl: "sorted_wrt (\<lambda>p q. \<not> float_lt (fst p) (fst q)) (insert_desc p qs)"
      using Cons by simp
    have "\<forall>r\<in>set (insert_desc p qs). \<not> float_lt (fst q) (fst r)"
    proof
      fix r assume "r \<in> set (insert_desc p qs)"
      then have "r \<in># mset (insert_desc p qs)" by simp
      then have "r = p \<or> r \<in> set qs" by (simp add: mset_insert_desc)
      then show "\<not> float_lt (fst q) (fst r)"
        using True Cons.prems(1) by (auto dest: float_lt_asym)
    qed
    with tl True show ?thesis by simp
  next
    case False
    have "\<forall>r\<in>set qs. \<not> float_lt (fst p) (fst r)"
    proof
      fix r assume r: "r \<in> set qs"
      then have "\<not> float_lt (fst q) (fst r)" using Cons.prems(1) by simp
      with False show "\<not> float_lt (fst p) (fst r)"
        using float_ge_trans[of "fst p" "fst q" "fst r"] Cons.prems(2,3) r by simp
    qed
    with False Cons.prems(1) show ?thesis by simp
  qed
qed

text \<open>A list in which no key is \<^verbatim>\<open><\<close> the key after it is left as it is.\<close>

lemma list_sort_reverse_run:
  "successively (\<lambda>p q. \<not> float_lt (fst p) (fst q)) ps \<Longrightarrow> list_sort_reverse ps = ps"
proof (induction ps)
  case Nil
  show ?case by simp
next
  case (Cons p ps)
  then show ?case by (cases ps) simp_all
qed

lemma sorted_list_sort_reverse:
  "\<forall>q\<in>set ps. fst q \<noteq> NaN \<Longrightarrow>
   sorted_wrt (\<lambda>p q. \<not> float_lt (fst p) (fst q)) (list_sort_reverse ps)"
  by (induction ps) (simp_all add: sorted_insert_desc set_list_sort_reverse)

lemma decorated_keys: "\<forall>p\<in>set (zip (map f xs) xs). fst p = f (snd p)"
  by (auto simp: in_set_zip)

lemma map_snd_decorated: "map snd (zip (map f xs) xs) = xs"
  by (simp add: map_snd_zip)

lemma ranked_mset: "mset (ranked rs) = mset rs"
proof -
  have "mset (ranked rs) = image_mset snd (mset (list_sort_reverse (zip (map score_of rs) rs)))"
    by (simp add: ranked_def)
  also have "\<dots> = mset (map snd (zip (map score_of rs) rs))"
    by (simp only: mset_list_sort_reverse mset_map)
  finally show ?thesis by (simp only: map_snd_decorated)
qed

lemma length_ranked: "length (ranked rs) = length rs"
  using ranked_mset[of rs] by (metis size_mset)

lemma set_ranked: "set (ranked rs) = set rs"
  using ranked_mset[of rs] by (metis set_mset_mset)

lemma ranked_keys:
  "\<forall>p\<in>set (list_sort_reverse (zip (map score_of rs) rs)). fst p = score_of (snd p)"
  unfolding set_list_sort_reverse by (rule decorated_keys)

lemma ranked_stable:
  "filter (\<lambda>x. score_of x = k) (ranked rs) = filter (\<lambda>x. score_of x = k) rs"
proof -
  define L where "L = zip (map score_of rs) rs"
  have keys: "\<forall>p\<in>set L. fst p = score_of (snd p)"
    unfolding L_def by (rule decorated_keys)
  then have keys': "\<forall>p\<in>set (list_sort_reverse L). fst p = score_of (snd p)"
    by (simp only: set_list_sort_reverse)
  have undecorate: "filter (\<lambda>x. score_of x = k) (map snd M) = map snd (filter (\<lambda>p. fst p = k) M)"
    if "\<forall>p\<in>set M. fst p = score_of (snd p)" for M
    using that by (induction M) auto
  have "filter (\<lambda>x. score_of x = k) (ranked rs) = map snd (filter (\<lambda>p. fst p = k) (list_sort_reverse L))"
    unfolding ranked_def L_def[symmetric] by (rule undecorate[OF keys'])
  also have "\<dots> = map snd (filter (\<lambda>p. fst p = k) L)"
    by (simp only: filter_list_sort_reverse)
  also have "\<dots> = filter (\<lambda>x. score_of x = k) (map snd L)"
    by (rule undecorate[OF keys, symmetric])
  also have "map snd L = rs" unfolding L_def by (rule map_snd_decorated)
  finally show ?thesis .
qed

lemma ranked_sorted:
  assumes "\<forall>x\<in>set rs. numeric x"
  shows "sorted_wrt (\<lambda>x y. \<not> float_lt (score_of x) (score_of y)) (ranked rs)"
proof -
  let ?L = "list_sort_reverse (zip (map score_of rs) rs)"
  have "\<forall>q\<in>set (zip (map score_of rs) rs). fst q \<noteq> NaN"
    using assms by (auto simp: in_set_zip numeric_def)
  then have "sorted_wrt (\<lambda>p q. \<not> float_lt (fst p) (fst q)) ?L"
    by (rule sorted_list_sort_reverse)
  then have "sorted_wrt (\<lambda>p q. \<not> float_lt (score_of (snd p)) (score_of (snd q))) ?L"
    by (rule sorted_wrt_mono_rel[rotated]) (use ranked_keys[of rs] in auto)
  then show ?thesis by (simp add: ranked_def sorted_wrt_map)
qed

text \<open>
  A descending, tie-stable arrangement of a population without NaN scores is unique: the
  scores and the original positions fix the place of every thread.
\<close>

lemma stable_descending_unique:
  assumes "mset S = mset T"
    and "\<forall>x\<in>set S. f x \<noteq> NaN"
    and "sorted_wrt (\<lambda>x y. \<not> float_lt (f x) (f y)) S"
    and "sorted_wrt (\<lambda>x y. \<not> float_lt (f x) (f y)) T"
    and "\<forall>k. filter (\<lambda>x. f x = k) S = filter (\<lambda>x. f x = k) T"
  shows "S = T"
  using assms
proof (induction S arbitrary: T)
  case Nil
  then show ?case by simp
next
  case (Cons x S')
  from Cons.prems(1) have "T \<noteq> []" by auto
  then obtain y T' where T: "T = y # T'" by (cases T) auto
  have sets: "set T = set (x # S')" using Cons.prems(1) by (metis set_mset_mset)
  have xy: "x = y"
  proof (rule ccontr)
    assume ne: "x \<noteq> y"
    then have xT: "x \<in> set T'" and yS: "y \<in> set S'" using sets T by auto
    have "\<not> float_lt (f x) (f y)" using Cons.prems(3) yS by simp
    moreover have "\<not> float_lt (f y) (f x)" using Cons.prems(4) xT T by simp
    moreover have "f x \<noteq> NaN" "f y \<noteq> NaN" using Cons.prems(2) yS by simp_all
    ultimately have eq: "f x = f y" using float_lt_total[of "f x" "f y"] by blast
    from Cons.prems(5) have "filter (\<lambda>z. f z = f x) (x # S') = filter (\<lambda>z. f z = f x) T"
      by blast
    with eq T ne show False by simp
  qed
  have "S' = T'"
  proof (rule Cons.IH)
    show "mset S' = mset T'" using Cons.prems(1) T xy by simp
    show "\<forall>x\<in>set S'. f x \<noteq> NaN" using Cons.prems(2) by simp
    show "sorted_wrt (\<lambda>x y. \<not> float_lt (f x) (f y)) S'" using Cons.prems(3) by simp
    show "sorted_wrt (\<lambda>x y. \<not> float_lt (f x) (f y)) T'" using Cons.prems(4) T by simp
    show "\<forall>k. filter (\<lambda>x. f x = k) S' = filter (\<lambda>x. f x = k) T'"
    proof
      fix k
      from Cons.prems(5) have "filter (\<lambda>z. f z = k) (x # S') = filter (\<lambda>z. f z = k) (y # T')"
        unfolding T by blast
      then show "filter (\<lambda>x. f x = k) S' = filter (\<lambda>x. f x = k) T'"
        using xy by (cases "f y = k") simp_all
    qed
  qed
  with xy T show ?case by simp
qed

subsection \<open>The loops\<close>

lemma append_copies_eq: "append_copies is x acc = acc @ replicate (length is) x"
  by (induction "is" arbitrary: acc) (auto simp: replicate_append_same)

lemma clone_loop_eq:
  "b \<noteq> 0 \<Longrightarrow>
   clone_loop n b best acc = Inr (acc @ concat (map (replicate (nat (n div b))) best))"
  by (induction best arbitrary: acc)
     (auto simp: py_floordiv_def append_copies_eq py_range_def)

lemma extra_loop_eq:
  "\<forall>i\<in>set is. 0 \<le> i \<and> i < int (length best) \<Longrightarrow>
   extra_loop best is acc = Inr (acc @ map (\<lambda>i. best ! nat i) is)"
  by (induction "is" arbitrary: acc) (auto simp: py_index_def py_position_def)

lemma extra_loop_range:
  "r \<le> int (length best) \<Longrightarrow>
   extra_loop best (py_range r) acc = Inr (acc @ take (nat r) best)"
proof -
  assume r: "r \<le> int (length best)"
  have "extra_loop best (py_range r) acc = Inr (acc @ map (\<lambda>i. best ! nat i) (py_range r))"
    by (rule extra_loop_eq) (use r in \<open>auto simp: py_range_def\<close>)
  moreover have "map (\<lambda>i. best ! nat i) (py_range r) = take (nat r) best"
    using r by (auto simp: py_range_def intro!: nth_equalityI)
  ultimately show ?thesis by simp
qed

lemma sort_keys_Inr:
  "sort_keys xs = Inr ks \<Longrightarrow> (\<forall>x\<in>set xs. scored x) \<and> ks = map score_of xs"
proof (induction xs arbitrary: ks)
  case Nil
  then show ?case by simp
next
  case (Cons x xs)
  from Cons.prems obtain k ks' where k: "latest_score x = Inr k"
    and ks': "sort_keys xs = Inr ks'" and ks: "ks = k # ks'"
    by (auto split: sum.splits)
  from k have "scored x \<and> k = score_of x"
    by (cases "content x = []")
       (auto simp: latest_score_def scored_def score_of_def py_index_last py_index_empty
             split: sum.splits option.splits)
  with Cons.IH[OF ks'] ks show ?case by simp
qed

lemma sort_reverse_Inr:
  "sort_reverse rs = Inr S \<longleftrightarrow> (\<forall>x\<in>set rs. scored x) \<and> S = ranked rs"
proof
  assume "sort_reverse rs = Inr S"
  then obtain ks where ks: "sort_keys rs = Inr ks"
    and S: "S = map snd (list_sort_reverse (zip ks rs))"
    by (auto simp: sort_reverse_def split: sum.splits)
  from sort_keys_Inr[OF ks] S show "(\<forall>x\<in>set rs. scored x) \<and> S = ranked rs"
    by (simp add: ranked_def)
next
  assume "(\<forall>x\<in>set rs. scored x) \<and> S = ranked rs"
  then show "sort_reverse rs = Inr S"
    by (simp add: sort_reverse_def sort_keys_scored ranked_def)
qed

lemma beam_search_agent_result:
  assumes rs: "responses st = Some rs" and sc: "\<forall>x\<in>set rs. scored x"
    and b: "beams st = Some b" and n: "threads st = Some n"
    and b1: "1 \<le> b" and bl: "b \<le> int (length rs)"
  shows "beam_search_agent st =
    Inr (no_update\<lparr>
      responses := Some (concat (map (replicate (nat (n div b))) (take (nat b) (ranked rs)))
                         @ take (nat (n mod b)) (take (nat b) (ranked rs))),
      discarded_responses := Some (drop (nat b) (ranked rs)),
      index := Some 0 \<rparr>)"
proof -
  have srt: "sort_reverse rs = Inr (ranked rs)" using sc by (simp add: sort_reverse_Inr)
  have b0: "b \<noteq> 0" and bneg: "\<not> b < 0" using b1 by auto
  have len: "length (take (nat b) (ranked rs)) = nat b"
    using bl b1 by (simp add: length_ranked)
  have "n mod b < b" using b1 by simp
  then have "n mod b \<le> b" by simp
  then have r: "n mod b \<le> int (length (take (nat b) (ranked rs)))"
    using len b1 by simp
  show ?thesis
    unfolding beam_search_agent_def
    by (simp add: rs srt b n Let_def slice_to_def slice_from_def bneg
          clone_loop_eq[OF b0] py_mod_def b0 extra_loop_range[OF r])
qed

lemma length_concat_replicate:
  "length (concat (map (replicate q) xs)) = q * length xs"
  by (induction xs) auto

lemma beam_search_agent_Inr_scored:
  assumes "beam_search_agent st = Inr upd" and "responses st = Some rs"
  shows "\<forall>x\<in>set rs. scored x"
proof -
  from assms obtain S where "sort_reverse rs = Inr S"
    by (auto simp: beam_search_agent_def split: sum.splits)
  then show ?thesis by (simp add: sort_reverse_Inr)
qed

lemma refill_length:
  assumes "1 \<le> b" "b \<le> n"
  shows "nat (n div b) * nat b + nat (n mod b) = nat n"
proof -
  have "0 \<le> n div b" "0 \<le> n mod b" "0 \<le> b" using assms by (auto simp: pos_imp_zdiv_nonneg_iff)
  then have "int (nat (n div b) * nat b + nat (n mod b)) = n div b * b + n mod b"
    by simp
  also have "\<dots> = n" by simp
  finally show ?thesis by linarith
qed

text \<open>
  Claim C1. For a population whose thread list has length \<open>threads\<close> and a beam width
  with \<open>1 \<le> beams \<le> threads\<close>, a selection call that returns leaves a thread list of
  length exactly \<open>threads\<close> in its update and in the merged state, and on a scored
  population the call does return.
\<close>

theorem beam_search_thread_count:
  assumes rs: "responses st = Some rs" and len: "int (length rs) = n"
    and n: "threads st = Some n" and b: "beams st = Some b"
    and b1: "1 \<le> b" and bn: "b \<le> n"
  shows "((\<forall>x\<in>set rs. scored x) \<longrightarrow> (\<exists>upd. beam_search_agent st = Inr upd)) \<and>
         (\<forall>upd. beam_search_agent st = Inr upd \<longrightarrow>
            (\<exists>rs'. responses upd = Some rs' \<and> int (length rs') = n \<and>
                   responses (merge_update upd st) = Some rs'))"
proof (intro conjI allI impI)
  assume "\<forall>x\<in>set rs. scored x"
  from beam_search_agent_result[OF rs this b n b1] bn len
  show "\<exists>upd. beam_search_agent st = Inr upd" by simp
next
  fix upd
  assume ok: "beam_search_agent st = Inr upd"
  have sc: "\<forall>x\<in>set rs. scored x" by (rule beam_search_agent_Inr_scored[OF ok rs])
  have bl: "b \<le> int (length rs)" using bn len by simp
  let ?kept = "take (nat b) (ranked rs)"
  let ?final = "concat (map (replicate (nat (n div b))) ?kept) @ take (nat (n mod b)) ?kept"
  have upd: "upd = no_update\<lparr> responses := Some ?final,
      discarded_responses := Some (drop (nat b) (ranked rs)), index := Some 0 \<rparr>"
    using beam_search_agent_result[OF rs sc b n b1 bl] ok by simp
  have lk: "length ?kept = nat b" using bl b1 by (simp add: length_ranked)
  have "n mod b < b" using b1 by simp
  then have "nat (n mod b) \<le> nat b" by simp
  then have "length (take (nat (n mod b)) ?kept) = nat (n mod b)"
    using lk by (simp only: length_take)
  then have "length ?final = nat (n div b) * nat b + nat (n mod b)"
    using lk by (simp only: length_append length_concat_replicate)
  then have "length ?final = nat n" by (simp add: refill_length[OF b1 bn])
  moreover have "0 \<le> n" using b1 bn by simp
  ultimately have "int (length ?final) = n" by simp
  then show "\<exists>rs'. responses upd = Some rs' \<and> int (length rs') = n \<and>
                   responses (merge_update upd st) = Some rs'"
    by (simp add: upd merge_update_def overwrite_def)
qed

lemma scenario_B_scored: "\<forall>x\<in>set scenario_B_threads. scored x"
  by (simp add: scenario_B_threads_def scored_def mk_thread_def)

theorem beam_search_thread_count_witness:
  "list_all scored scenario_B_threads \<and>
   (\<exists>upd rs'. beam_search_agent scenario_B = Inr upd \<and>
      responses (merge_update upd scenario_B) = Some rs' \<and> int (length rs') = 5)"
proof -
  have h: "responses scenario_B = Some scenario_B_threads" "int (length scenario_B_threads) = 5"
    "threads scenario_B = Some 5" "beams scenario_B = Some 3" "(1::int) \<le> 3" "(3::int) \<le> 5"
    by (simp_all add: scenario_B_def scenario_B_threads_def no_update_def)
  from beam_search_thread_count[OF h] scenario_B_scored show ?thesis
    by (simp only: list_all_iff) blast
qed

lemma count_list_concat_replicate:
  "count_list (concat (map (replicate q) xs)) x = q * count_list xs x"
proof (induction xs)
  case Nil
  show ?case by simp
next
  case (Cons y ys)
  have "count_list (replicate q y) x = (if y = x then q else 0)"
    by (induction q) auto
  with Cons show ?case by (simp add: count_list_append)
qed

lemma filter_concat_replicate:
  "filter P (concat (map (replicate q) xs)) = concat (map (replicate q) (filter P xs))"
  by (induction xs) auto

lemma filter_take_prefix:
  "filter P (take m xs) = take (length (filter P (take m xs))) (filter P xs)"
proof -
  have "filter P xs = filter P (take m xs) @ filter P (drop m xs)"
    by (metis append_take_drop_id filter_append)
  then show ?thesis by simp
qed

lemma scenario_B_numeric: "\<forall>x\<in>set scenario_B_threads. scored x \<and> numeric x"
  by (simp add: scenario_B_threads_def scored_def numeric_def score_of_def mk_thread_def)

lemma ranked_scenario_B: "ranked scenario_B_threads = scenario_B_threads"
  by (simp add: ranked_def scenario_B_threads_def mk_thread_def score_of_def)

lemma ranked_tie:
  "ranked tie_threads = [mk_thread ''Q'' 8, mk_thread ''S'' 8, mk_thread ''R'' 6, mk_thread ''P'' 5]"
  by (simp add: ranked_def tie_threads_def mk_thread_def score_of_def)

lemma ranked_nan: "ranked nan_threads = nan_threads"
  by (simp add: ranked_def nan_threads_def mk_thread_def nan_thread_def score_of_def)

lemma nan_scored: "\<forall>x\<in>set nan_threads. scored x"
  by (simp add: nan_threads_def scored_def mk_thread_def nan_thread_def)

text \<open>
  The claim as stated fails on a population with a NaN score, which the scorer stores
  when the model's reply is \<^verbatim>\<open>nan\<close>: with scores 1, NaN, 9 and \<^verbatim>\<open>beams = 1\<close> the sort leaves
  the list as it is, so the thread scored 1 is kept and cloned and the thread scored 9 is
  discarded.
\<close>

theorem selection_keeps_lower_score_counterexample:
  "list_all scored nan_threads \<and>
   beam_search_agent nan_state =
     Inr (no_update\<lparr>
       responses := Some [mk_thread ''A'' 1, mk_thread ''A'' 1, mk_thread ''A'' 1],
       discarded_responses := Some [nan_thread ''B'', mk_thread ''C'' 9],
       index := Some 0 \<rparr>) \<and>
   float_lt (score_of (mk_thread ''A'' 1)) (score_of (mk_thread ''C'' 9))"
proof -
  have h: "responses nan_state = Some nan_threads" "beams nan_state = Some 1"
    "threads nan_state = Some 3" "(1::int) \<le> 1" "1 \<le> int (length nan_threads)"
    by (simp_all add: nan_state_def nan_threads_def no_update_def)
  have q: "nat (3 div 1) = 3" and r: "nat (3 mod 1) = 0" and one: "nat 1 = 1" by simp_all
  have run: "beam_search_agent nan_state =
     Inr (no_update\<lparr>
       responses := Some [mk_thread ''A'' 1, mk_thread ''A'' 1, mk_thread ''A'' 1],
       discarded_responses := Some [nan_thread ''B'', mk_thread ''C'' 9],
       index := Some 0 \<rparr>)"
    unfolding beam_search_agent_result[OF h(1) nan_scored h(2,3,4,5)] ranked_nan q r one
    by (simp add: nan_threads_def numeral_3_eq_3)
  have "float_lt (score_of (mk_thread ''A'' 1)) (score_of (mk_thread ''C'' 9))"
    by (simp add: score_of_def mk_thread_def)
  with run nan_scored show ?thesis by (simp add: list_all_iff)
qed

text \<open>
  Claim C2 (amended). On a population of \<open>threads\<close> scored threads none of whose latest
  scores is NaN, with \<open>1 \<le> beams \<le> threads\<close>, selection arranges the threads by latest
  score, descending, threads with equal scores staying in their original order, keeps the
  first \<open>beams\<close> of them (so no discarded thread has a higher score than a kept one),
  returns the rest as the discarded threads, and refills with \<open>threads div beams\<close> copies
  of each kept thread followed by one more copy of each of the first \<open>threads mod beams\<close>
  kept threads. In scenario B the scores 9, 8, 7, 6, 5 give A, B, C, A, B and discard D, E.
\<close>

theorem beam_search_keeps_top_and_clones:
  assumes rs: "responses st = Some rs" and len: "int (length rs) = n"
    and n: "threads st = Some n" and b: "beams st = Some b"
    and b1: "1 \<le> b" and bn: "b \<le> n"
    and sc: "\<forall>x\<in>set rs. scored x \<and> numeric x"
  shows "\<exists>S kept bad final.
     beam_search_agent st =
       Inr (no_update\<lparr> responses := Some final, discarded_responses := Some bad,
                       index := Some 0 \<rparr>)
     \<and> mset S = mset rs
     \<and> sorted_wrt (\<lambda>x y. \<not> float_lt (score_of x) (score_of y)) S
     \<and> (\<forall>k. filter (\<lambda>x. score_of x = k) S = filter (\<lambda>x. score_of x = k) rs)
     \<and> kept = take (nat b) S \<and> bad = drop (nat b) S \<and> int (length kept) = b
     \<and> (\<forall>x\<in>set kept. \<forall>y\<in>set bad. \<not> float_lt (score_of x) (score_of y))
     \<and> final = concat (map (replicate (nat (n div b))) kept) @ take (nat (n mod b)) kept
     \<and> (\<forall>x. count_list final x =
              nat (n div b) * count_list kept x + count_list (take (nat (n mod b)) kept) x)"
proof -
  have bl: "b \<le> int (length rs)" using bn len by simp
  have sc': "\<forall>x\<in>set rs. scored x" and num: "\<forall>x\<in>set rs. numeric x" using sc by simp_all
  define S where "S = ranked rs"
  define kept where "kept = take (nat b) S"
  define bad where "bad = drop (nat b) S"
  define final where
    "final = concat (map (replicate (nat (n div b))) kept) @ take (nat (n mod b)) kept"
  have run: "beam_search_agent st =
       Inr (no_update\<lparr> responses := Some final, discarded_responses := Some bad,
                       index := Some 0 \<rparr>)"
    unfolding final_def kept_def bad_def S_def
    by (rule beam_search_agent_result[OF rs sc' b n b1 bl])
  have perm: "mset S = mset rs" unfolding S_def by (rule ranked_mset)
  have srt: "sorted_wrt (\<lambda>x y. \<not> float_lt (score_of x) (score_of y)) S"
    unfolding S_def by (rule ranked_sorted[OF num])
  have stable: "\<forall>k. filter (\<lambda>x. score_of x = k) S = filter (\<lambda>x. score_of x = k) rs"
    unfolding S_def by (simp only: ranked_stable) simp
  have lk: "int (length kept) = b"
    using bl b1 by (simp add: kept_def S_def length_ranked)
  have "sorted_wrt (\<lambda>x y. \<not> float_lt (score_of x) (score_of y)) (kept @ bad)"
    using srt by (simp add: kept_def bad_def)
  then have top: "\<forall>x\<in>set kept. \<forall>y\<in>set bad. \<not> float_lt (score_of x) (score_of y)"
    by (simp only: sorted_wrt_append) simp
  have cnt: "\<forall>x. count_list final x =
      nat (n div b) * count_list kept x + count_list (take (nat (n mod b)) kept) x"
    unfolding final_def by (simp only: count_list_append count_list_concat_replicate) simp
  show ?thesis
    apply (rule exI[of _ S], rule exI[of _ kept], rule exI[of _ bad], rule exI[of _ final])
    using run perm srt stable lk top cnt by (simp add: kept_def bad_def final_def)
qed

theorem beam_search_keeps_top_and_clones_witness:
  "list_all (\<lambda>x. scored x \<and> numeric x) scenario_B_threads \<and>
   beam_search_agent scenario_B =
     Inr (no_update\<lparr>
       responses := Some [mk_thread ''A'' 9, mk_thread ''B'' 8, mk_thread ''C'' 7,
                          mk_thread ''A'' 9, mk_thread ''B'' 8],
       discarded_responses := Some [mk_thread ''D'' 6, mk_thread ''E'' 5],
       index := Some 0 \<rparr>)"
proof -
  have h: "responses scenario_B = Some scenario_B_threads" "int (length scenario_B_threads) = 5"
    "threads scenario_B = Some 5" "beams scenario_B = Some 3" "(1::int) \<le> 3" "(3::int) \<le> 5"
    by (simp_all add: scenario_B_def scenario_B_threads_def no_update_def)
  from beam_search_keeps_top_and_clones[OF h scenario_B_numeric]
  obtain S kept bad final where
    run: "beam_search_agent scenario_B =
       Inr (no_update\<lparr> responses := Some final, discarded_responses := Some bad,
                       index := Some 0 \<rparr>)"
    and perm: "mset S = mset scenario_B_threads"
    and srt: "sorted_wrt (\<lambda>x y. \<not> float_lt (score_of x) (score_of y)) S"
    and stable: "\<forall>k. filter (\<lambda>x. score_of x = k) S = filter (\<lambda>x. score_of x = k) scenario_B_threads"
    and kept: "kept = take (nat 3) S" and bad: "bad = drop (nat 3) S"
    and final: "final = concat (map (replicate (nat (5 div 3))) kept) @ take (nat (5 mod 3)) kept"
    by blast
  have num: "\<forall>x\<in>set S. score_of x \<noteq> NaN"
    using scenario_B_numeric perm by (metis numeric_def set_mset_mset)
  have "mset S = mset (ranked scenario_B_threads)" using perm by (simp only: ranked_mset)
  moreover have "sorted_wrt (\<lambda>x y. \<not> float_lt (score_of x) (score_of y)) (ranked scenario_B_threads)"
    using scenario_B_numeric by (simp add: ranked_sorted)
  moreover have "\<forall>k. filter (\<lambda>x. score_of x = k) S
       = filter (\<lambda>x. score_of x = k) (ranked scenario_B_threads)"
    using stable by (simp add: ranked_stable)
  ultimately have "S = ranked scenario_B_threads"
    using num srt by (intro stable_descending_unique[where f = score_of]) 
  then have S: "S = scenario_B_threads" by (simp only: ranked_scenario_B)
  have q: "nat (5 div 3) = 1" and r: "nat (5 mod 3) = 2" and three: "nat 3 = 3" by simp_all
  have "final = [mk_thread ''A'' 9, mk_thread ''B'' 8, mk_thread ''C'' 7,
                 mk_thread ''A'' 9, mk_thread ''B'' 8]"
    unfolding final q r kept three S by (simp add: scenario_B_threads_def)
  moreover have "bad = [mk_thread ''D'' 6, mk_thread ''E'' 5]"
    unfolding bad three S by (simp add: scenario_B_threads_def)
  ultimately show ?thesis
    using run scenario_B_numeric by (simp add: list_all_iff)
qed

text \<open>
  The claim as stated fails on a population with a NaN score: the sort of the threads
  scored 1, NaN, 9 returns them in this order, the score 1 ahead of the score 9, which is
  not a descending order.
\<close>

theorem sort_not_descending_counterexample:
  "list_all scored nan_threads \<and>
   map score_of nan_threads = [Finite 1, NaN, Finite 9] \<and>
   sort_reverse nan_threads = Inr nan_threads \<and>
   float_lt (Finite 1) (Finite 9)"
proof -
  have "sort_reverse nan_threads = Inr (ranked nan_threads)"
    using nan_scored by (simp add: sort_reverse_Inr)
  moreover have "map score_of nan_threads = [Finite 1, NaN, Finite 9]"
    by (simp add: nan_threads_def mk_thread_def nan_thread_def score_of_def)
  ultimately show ?thesis
    using nan_scored by (simp add: ranked_nan list_all_iff)
qed

text \<open>
  Claim C6 (amended). On a scored population without NaN scores, the sort of the selection
  step returns the threads by latest score, descending, the threads of equal score in
  their original order, and this arrangement is the only one there is: the scores and the
  original positions determine it. The selection result is built from it (clones of its
  first \<open>beams\<close> threads, the rest discarded), so the order survives selection and cloning:
  among the returned threads, those of score \<open>k\<close> are the clone blocks of the first \<open>i\<close>
  original threads of score \<open>k\<close>, in the original order, followed by the extra clones of
  the first \<open>j\<close> of them, where \<open>i\<close> and \<open>j\<close> count the threads of score \<open>k\<close> among the kept
  threads and among the first \<open>threads mod beams\<close> kept threads.
\<close>

theorem beam_search_stable_order:
  assumes rs: "responses st = Some rs" and len: "int (length rs) = n"
    and n: "threads st = Some n" and b: "beams st = Some b"
    and b1: "1 \<le> b" and bn: "b \<le> n"
    and sc: "\<forall>x\<in>set rs. scored x \<and> numeric x"
  shows "\<exists>S. sort_reverse rs = Inr S
     \<and> mset S = mset rs
     \<and> sorted_wrt (\<lambda>x y. \<not> float_lt (score_of x) (score_of y)) S
     \<and> (\<forall>k. filter (\<lambda>x. score_of x = k) S = filter (\<lambda>x. score_of x = k) rs)
     \<and> (\<forall>T. mset T = mset rs
            \<and> sorted_wrt (\<lambda>x y. \<not> float_lt (score_of x) (score_of y)) T
            \<and> (\<forall>k. filter (\<lambda>x. score_of x = k) T = filter (\<lambda>x. score_of x = k) rs)
            \<longrightarrow> T = S)
     \<and> beam_search_agent st =
         Inr (no_update\<lparr>
           responses := Some (concat (map (replicate (nat (n div b))) (take (nat b) S))
                              @ take (nat (n mod b)) (take (nat b) S)),
           discarded_responses := Some (drop (nat b) S),
           index := Some 0 \<rparr>)
     \<and> (\<forall>k. filter (\<lambda>x. score_of x = k)
               (concat (map (replicate (nat (n div b))) (take (nat b) S))
                @ take (nat (n mod b)) (take (nat b) S))
           = concat (map (replicate (nat (n div b)))
               (take (length (filter (\<lambda>x. score_of x = k) (take (nat b) S)))
                  (filter (\<lambda>x. score_of x = k) rs)))
             @ take (length (filter (\<lambda>x. score_of x = k) (take (nat (n mod b)) (take (nat b) S))))
                 (filter (\<lambda>x. score_of x = k) rs))"
proof -
  have bl: "b \<le> int (length rs)" using bn len by simp
  have sc': "\<forall>x\<in>set rs. scored x" and num: "\<forall>x\<in>set rs. numeric x" using sc by simp_all
  define S where "S = ranked rs"
  have sorted_S: "sort_reverse rs = Inr S" using sc' by (simp add: sort_reverse_Inr S_def)
  have perm: "mset S = mset rs" unfolding S_def by (rule ranked_mset)
  have srt: "sorted_wrt (\<lambda>x y. \<not> float_lt (score_of x) (score_of y)) S"
    unfolding S_def by (rule ranked_sorted[OF num])
  have stable: "filter (\<lambda>x. score_of x = k) S = filter (\<lambda>x. score_of x = k) rs" for k
    unfolding S_def by (rule ranked_stable)
  have unique: "T = S"
    if T: "mset T = mset rs
            \<and> sorted_wrt (\<lambda>x y. \<not> float_lt (score_of x) (score_of y)) T
            \<and> (\<forall>k. filter (\<lambda>x. score_of x = k) T = filter (\<lambda>x. score_of x = k) rs)" for T
  proof (rule stable_descending_unique[where f = score_of])
    show "mset T = mset S" using T perm by simp
    have "set T = set rs" using T by (metis set_mset_mset)
    then show "\<forall>x\<in>set T. score_of x \<noteq> NaN" using num by (simp add: numeric_def)
    show "sorted_wrt (\<lambda>x y. \<not> float_lt (score_of x) (score_of y)) T" using T by simp
    show "sorted_wrt (\<lambda>x y. \<not> float_lt (score_of x) (score_of y)) S" by (rule srt)
    show "\<forall>k. filter (\<lambda>x. score_of x = k) T = filter (\<lambda>x. score_of x = k) S"
      using T stable by simp
  qed
  have run: "beam_search_agent st =
         Inr (no_update\<lparr>
           responses := Some (concat (map (replicate (nat (n div b))) (take (nat b) S))
                              @ take (nat (n mod b)) (take (nat b) S)),
           discarded_responses := Some (drop (nat b) S),
           index := Some 0 \<rparr>)"
    unfolding S_def by (rule beam_search_agent_result[OF rs sc' b n b1 bl])
  have blocks: "filter (\<lambda>x. score_of x = k)
               (concat (map (replicate (nat (n div b))) (take (nat b) S))
                @ take (nat (n mod b)) (take (nat b) S))
           = concat (map (replicate (nat (n div b)))
               (take (length (filter (\<lambda>x. score_of x = k) (take (nat b) S)))
                  (filter (\<lambda>x. score_of x = k) rs)))
             @ take (length (filter (\<lambda>x. score_of x = k) (take (nat (n mod b)) (take (nat b) S))))
                 (filter (\<lambda>x. score_of x = k) rs)" for k
  proof -
    let ?P = "\<lambda>x. score_of x = k"
    let ?kept = "take (nat b) S"
    let ?extra = "take (nat (n mod b)) ?kept"
    have kept: "filter ?P ?kept = take (length (filter ?P ?kept)) (filter ?P rs)"
      using filter_take_prefix[of ?P "nat b" S] by (simp only: stable)
    have e: "?extra = take (min (nat (n mod b)) (nat b)) S"
      by (simp add: min.commute)
    have "filter ?P (take (min (nat (n mod b)) (nat b)) S)
        = take (length (filter ?P (take (min (nat (n mod b)) (nat b)) S))) (filter ?P rs)"
      using filter_take_prefix[of ?P "min (nat (n mod b)) (nat b)" S] by (simp only: stable)
    then have extra: "filter ?P ?extra = take (length (filter ?P ?extra)) (filter ?P rs)"
      by (simp only: e)
    have "filter ?P (concat (map (replicate (nat (n div b))) ?kept) @ ?extra) =
        concat (map (replicate (nat (n div b))) (filter ?P ?kept)) @ filter ?P ?extra"
      by (simp only: filter_append filter_concat_replicate)
    also have "\<dots> = concat (map (replicate (nat (n div b)))
                       (take (length (filter ?P ?kept)) (filter ?P rs)))
                   @ take (length (filter ?P ?extra)) (filter ?P rs)"
      using kept extra by simp
    finally show ?thesis .
  qed
  show ?thesis
    apply (rule exI[of _ S])
    using sorted_S perm srt stable unique run blocks by blast
qed

lemma tie_numeric: "\<forall>x\<in>set tie_threads. scored x \<and> numeric x"
  by (simp add: tie_threads_def scored_def numeric_def score_of_def mk_thread_def)

theorem beam_search_stable_order_witness:
  "list_all (\<lambda>x. scored x \<and> numeric x) tie_threads \<and>
   sort_reverse tie_threads =
     Inr [mk_thread ''Q'' 8, mk_thread ''S'' 8, mk_thread ''R'' 6, mk_thread ''P'' 5] \<and>
   beam_search_agent tie_state =
     Inr (no_update\<lparr>
       responses := Some [mk_thread ''Q'' 8, mk_thread ''S'' 8, mk_thread ''R'' 6,
                          mk_thread ''Q'' 8],
       discarded_responses := Some [mk_thread ''P'' 5],
       index := Some 0 \<rparr>)"
proof -
  have h: "responses tie_state = Some tie_threads" "int (length tie_threads) = 4"
    "threads tie_state = Some 4" "beams tie_state = Some 3" "(1::int) \<le> 3" "(3::int) \<le> 4"
    by (simp_all add: tie_state_def tie_threads_def no_update_def)
  define S0 where "S0 = [mk_thread ''Q'' 8, mk_thread ''S'' 8, mk_thread ''R'' 6, mk_thread ''P'' 5]"
  from beam_search_stable_order[OF h tie_numeric]
  obtain S where srt: "sort_reverse tie_threads = Inr S"
    and run: "beam_search_agent tie_state =
         Inr (no_update\<lparr>
           responses := Some (concat (map (replicate (nat (4 div 3))) (take (nat 3) S))
                              @ take (nat (4 mod 3)) (take (nat 3) S)),
           discarded_responses := Some (drop (nat 3) S),
           index := Some 0 \<rparr>)"
    by blast
  from srt have S: "S = S0" by (simp add: sort_reverse_Inr ranked_tie S0_def)
  have q: "nat (4 div 3) = 1" and r: "nat (4 mod 3) = 1" and three: "nat 3 = 3" by simp_all
  have "beam_search_agent tie_state =
     Inr (no_update\<lparr>
       responses := Some [mk_thread ''Q'' 8, mk_thread ''S'' 8, mk_thread ''R'' 6,
                          mk_thread ''Q'' 8],
       discarded_responses := Some [mk_thread ''P'' 5],
       index := Some 0 \<rparr>)"
    unfolding run q r three S by (simp add: S0_def)
  with srt S tie_numeric show ?thesis by (simp add: list_all_iff S0_def)
qed



section \<open>Properties of the difficulty table\<close>

lemma difficulty_lookup_cases:
  "difficulty_lookup d =
     (if d = ''1'' then Inr (difficulty_entry 1 3 3 0 4)
      else if d = ''2'' then Inr (difficulty_entry 2 5 3 0 3)
      else if d = ''3'' then Inr (difficulty_entry 3 7 3 0 2)
      else if d = ''4'' then Inr (difficulty_entry 4 9 3 0 1)
      else Inl (KeyError d))"
  by (simp add: difficulty_lookup_def difficulty_dict_def)

lemma difficulty_params_entry:
  "difficulty_params (difficulty_entry d t b s r) = (Some t, Some b, Some r)"
  by (simp add: difficulty_params_def difficulty_entry_def no_update_def)

text \<open>
  Claim C5. The difficulty table is defined exactly on the replies \<open>1\<close>, \<open>2\<close>, \<open>3\<close>, \<open>4\<close>,
  where it yields (threads, beams, revisions) = (3,3,4), (5,3,3), (7,3,2), (9,3,1), each
  with \<open>1 \<le> beams \<le> threads\<close>; on any other reply the lookup raises \<^verbatim>\<open>KeyError\<close> and the
  difficulty node fails: there is no default.
\<close>

theorem difficulty_lookup_total:
  "map_sum id difficulty_params (difficulty_lookup ''1'') = Inr (Some 3, Some 3, Some 4) \<and>
   map_sum id difficulty_params (difficulty_lookup ''2'') = Inr (Some 5, Some 3, Some 3) \<and>
   map_sum id difficulty_params (difficulty_lookup ''3'') = Inr (Some 7, Some 3, Some 2) \<and>
   map_sum id difficulty_params (difficulty_lookup ''4'') = Inr (Some 9, Some 3, Some 1) \<and>
   (\<forall>d cfg. difficulty_lookup d = Inr cfg \<longrightarrow>
      (\<exists>t b r. difficulty_params cfg = (Some t, Some b, Some r) \<and> 1 \<le> b \<and> b \<le> t \<and> 0 \<le> r)) \<and>
   (\<forall>d. d \<notin> {''1'', ''2'', ''3'', ''4''} \<longrightarrow> difficulty_lookup d = Inl (KeyError d)) \<and>
   (\<forall>st (result :: llm_result). reply_text result \<notin> {''1'', ''2'', ''3'', ''4''} \<longrightarrow>
      (\<exists>e. create_difficulty_agent st result = Inl e))"
proof (intro conjI allI impI)
  show "map_sum id difficulty_params (difficulty_lookup ''1'') = Inr (Some 3, Some 3, Some 4)"
    by (simp add: difficulty_lookup_cases difficulty_params_entry)
  show "map_sum id difficulty_params (difficulty_lookup ''2'') = Inr (Some 5, Some 3, Some 3)"
    by (simp add: difficulty_lookup_cases difficulty_params_entry)
  show "map_sum id difficulty_params (difficulty_lookup ''3'') = Inr (Some 7, Some 3, Some 2)"
    by (simp add: difficulty_lookup_cases difficulty_params_entry)
  show "map_sum id difficulty_params (difficulty_lookup ''4'') = Inr (Some 9, Some 3, Some 1)"
    by (simp add: difficulty_lookup_cases difficulty_params_entry)
next
  fix d cfg
  assume "difficulty_lookup d = Inr cfg"
  then have "cfg = difficulty_entry 1 3 3 0 4 \<or> cfg = difficulty_entry 2 5 3 0 3 \<or>
             cfg = difficulty_entry 3 7 3 0 2 \<or> cfg = difficulty_entry 4 9 3 0 1"
    by (simp add: difficulty_lookup_cases split: if_splits)
  then show "\<exists>t b r. difficulty_params cfg = (Some t, Some b, Some r) \<and> 1 \<le> b \<and> b \<le> t \<and> 0 \<le> r"
    by (elim disjE) (simp_all add: difficulty_params_entry)
next
  fix d :: string
  assume "d \<notin> {''1'', ''2'', ''3'', ''4''}"
  then show "difficulty_lookup d = Inl (KeyError d)"
    by (simp add: difficulty_lookup_cases)
next
  fix st and result :: llm_result
  assume "reply_text result \<notin> {''1'', ''2'', ''3'', ''4''}"
  then have "difficulty_lookup (reply_text result) = Inl (KeyError (reply_text result))"
    by (simp add: difficulty_lookup_cases)
  then show "\<exists>e. create_difficulty_agent st result = Inl e"
    by (simp add: create_difficulty_agent_def split: option.splits sum.splits)
qed

theorem difficulty_lookup_total_witness:
  "''5'' \<notin> {''1'', ''2'', ''3'', ''4''} \<and> difficulty_lookup ''5'' = Inl (KeyError ''5'') \<and>
   '' 1'' \<notin> {''1'', ''2'', ''3'', ''4''} \<and> difficulty_lookup '' 1'' = Inl (KeyError '' 1'')"
proof -
  have a: "''5'' \<notin> {''1'', ''2'', ''3'', ''4''}" and b: "'' 1'' \<notin> {''1'', ''2'', ''3'', ''4''}"
    by simp_all
  have all: "\<forall>d. d \<notin> {''1'', ''2'', ''3'', ''4''} \<longrightarrow> difficulty_lookup d = Inl (KeyError d)"
    using difficulty_lookup_total by (elim conjE)
  have "difficulty_lookup ''5'' = Inl (KeyError ''5'')" by (rule all[rule_format, OF a])
  moreover have "difficulty_lookup '' 1'' = Inl (KeyError '' 1'')"
    by (rule all[rule_format, OF b])
  ultimately show ?thesis using a b by (intro conjI)
qed

section \<open>Properties of the revision router\<close>

lemma revised_response_handler_Inr:
  assumes "revised_response_handler st = Inr upd"
  shows "\<exists>r i rs j. cur_response st = Some r \<and> index st = Some i \<and> responses st = Some rs \<and>
           py_position rs i = Inr j \<and> j < length rs \<and>
           upd = no_update\<lparr> responses := Some (rs[j := (rs ! j)\<lparr> content := content (rs ! j) @ [r] \<rparr>]),
                             index := Some (i + 1) \<rparr>"
proof -
  from assms obtain r i rs j where a: "cur_response st = Some r" "index st = Some i"
    "responses st = Some rs" "py_position rs i = Inr j"
    and upd: "upd = no_update\<lparr> responses := Some (rs[j := (rs ! j)\<lparr> content := content (rs ! j) @ [r] \<rparr>]),
                             index := Some (i + 1) \<rparr>"
    by (auto simp: revised_response_handler_def split: option.splits sum.splits)
  from a(4) have "j < length rs"
    by (auto simp: py_position_def split: if_splits)
  with a upd show ?thesis by blast
qed

lemma revision_router_eq:
  assumes "index st = Some i" "threads st = Some n" "revisions st = Some budget"
    "responses st = Some rs" "rs \<noteq> []"
  shows "revision_router st =
     Inr (if int (length (content (last rs))) = budget + 1 then ''summary''
          else if i = n then ''check_done'' else ''get_revision_response'')"
  using assms by (simp add: revision_router_def py_index_last)

text \<open>
  Claim C3 (amended). After a revision is appended, the router sends the run to the final
  summary exactly when the last thread of the population (\<^verbatim>\<open>responses[-1]\<close>) has a history of
  length \<open>revisions + 1\<close>; the length of the history of the thread just revised at the
  cursor plays no part unless that thread is the last one.
\<close>

theorem revision_router_summary_iff:
  assumes run: "apply_node revised_response_handler st = Inr st'"
    and rs: "responses st' = Some rs"
    and n: "threads st' = Some n" and budget: "revisions st' = Some budget"
  shows "rs \<noteq> [] \<and>
    (revision_router st' = Inr ''summary'' \<longleftrightarrow> int (length (content (last rs))) = budget + 1) \<and>
    (next_node RevisedResponseHandler st' = Inr FinalSummary \<longleftrightarrow>
       int (length (content (last rs))) = budget + 1)"
proof -
  from run obtain upd where upd: "revised_response_handler st = Inr upd"
    and st': "st' = merge_update upd st"
    by (auto simp: apply_node_def split: sum.splits)
  from revised_response_handler_Inr[OF upd] obtain r i rs0 j where
    h: "index st = Some i" "responses st = Some rs0" "j < length rs0"
    and u: "upd = no_update\<lparr> responses := Some (rs0[j := (rs0 ! j)\<lparr> content := content (rs0 ! j) @ [r] \<rparr>]),
                             index := Some (i + 1) \<rparr>"
    by blast
  have rs_eq: "rs = rs0[j := (rs0 ! j)\<lparr> content := content (rs0 ! j) @ [r] \<rparr>]"
    using rs by (simp add: st' u merge_update_def overwrite_def no_update_def)
  with h(3) have ne: "rs \<noteq> []" by auto
  have idx: "index st' = Some (i + 1)"
    by (simp add: st' u merge_update_def overwrite_def no_update_def)
  note router = revision_router_eq[OF idx n budget rs ne]
  show ?thesis
    using ne by (simp add: router next_node_def conditional_edge_def)
qed

theorem revision_router_summary_iff_witness:
  "apply_node revised_response_handler round_end \<noteq> Inl IndexError \<and>
   map_sum id history_lengths (apply_node revised_response_handler round_end) = Inr [2, 2, 2, 2, 2] \<and>
   map_sum id fst (step any_result (RevisedResponseHandler, round_end)) = Inr FinalSummary"
proof -
  define st' where "st' = merge_update (no_update\<lparr>
     responses := Some [revised (mk_thread ''A'' 9) (mk_response ''A2'' 9),
                        revised (mk_thread ''B'' 8) (mk_response ''B2'' 9),
                        revised (mk_thread ''C'' 7) (mk_response ''C2'' 8),
                        revised (mk_thread ''A'' 9) (mk_response ''A3'' 9),
                        revised (mk_thread ''B'' 8) (mk_response ''B3'' 8)],
     index := Some 5 \<rparr>) round_end"
  have hd: "revised_response_handler round_end = Inr (no_update\<lparr>
     responses := Some [revised (mk_thread ''A'' 9) (mk_response ''A2'' 9),
                        revised (mk_thread ''B'' 8) (mk_response ''B2'' 9),
                        revised (mk_thread ''C'' 7) (mk_response ''C2'' 8),
                        revised (mk_thread ''A'' 9) (mk_response ''A3'' 9),
                        revised (mk_thread ''B'' 8) (mk_response ''B3'' 8)],
     index := Some 5 \<rparr>)"
    by (simp add: revised_response_handler_def round_end_def no_update_def py_position_def
          revised_def)
  then have run: "apply_node revised_response_handler round_end = Inr st'"
    by (simp add: apply_node_def st'_def)
  have f: "responses st' = Some [revised (mk_thread ''A'' 9) (mk_response ''A2'' 9),
                        revised (mk_thread ''B'' 8) (mk_response ''B2'' 9),
                        revised (mk_thread ''C'' 7) (mk_response ''C2'' 8),
                        revised (mk_thread ''A'' 9) (mk_response ''A3'' 9),
                        revised (mk_thread ''B'' 8) (mk_response ''B3'' 8)]"
    "threads st' = Some 5" "revisions st' = Some 1"
    by (simp_all add: st'_def merge_update_def overwrite_def no_update_def round_end_def)
  from revision_router_summary_iff[OF run f]
  have nx: "next_node RevisedResponseHandler st' = Inr FinalSummary"
    by (simp add: revised_def mk_thread_def)
  have "step any_result (RevisedResponseHandler, round_end) = Inr (FinalSummary, st')"
    using hd nx by (simp add: step_def run_node_def st'_def Let_def)
  moreover have "history_lengths st' = [2, 2, 2, 2, 2]"
    by (simp add: history_lengths_def f revised_def mk_thread_def)
  ultimately show ?thesis using run by simp
qed

text \<open>
  The claim as stated fails: in scenario C (budget 1, five threads) the thread at cursor 2
  reaches history length 2, and the run goes on to \<^verbatim>\<open>get_revision_response\<close> for thread 3.
\<close>

theorem early_exit_at_cursor_counterexample:
  "revisions scenario_C = Some 1 \<and> index scenario_C = Some 2 \<and>
   history_lengths scenario_C = [2, 2, 1, 1, 1] \<and>
   map_sum id history_lengths (apply_node revised_response_handler scenario_C)
     = Inr [2, 2, 2, 1, 1] \<and>
   map_sum id fst (step any_result (RevisedResponseHandler, scenario_C))
     = Inr GetRevisionResponse"
proof -
  define rs' where "rs' = [revised (mk_thread ''A'' 9) (mk_response ''A2'' 9),
               revised (mk_thread ''B'' 8) (mk_response ''B2'' 9),
               revised (mk_thread ''C'' 7) (mk_response ''C2'' 8),
               mk_thread ''A'' 9, mk_thread ''B'' 8]"
  define st' where "st' = merge_update (no_update\<lparr> responses := Some rs', index := Some 3 \<rparr>) scenario_C"
  have hd: "revised_response_handler scenario_C =
      Inr (no_update\<lparr> responses := Some rs', index := Some 3 \<rparr>)"
    by (simp add: revised_response_handler_def scenario_C_def no_update_def py_position_def
          revised_def rs'_def)
  then have run: "apply_node revised_response_handler scenario_C = Inr st'"
    by (simp add: apply_node_def st'_def)
  have f: "responses st' = Some rs'" "threads st' = Some 5" "revisions st' = Some 1"
    "index st' = Some 3"
    by (simp_all add: st'_def merge_update_def overwrite_def no_update_def scenario_C_def)
  have ne: "rs' \<noteq> []" by (simp add: rs'_def)
  have "length (content (last rs')) = 1" by (simp add: rs'_def mk_thread_def)
  then have "revision_router st' = Inr ''get_revision_response''"
    by (simp add: revision_router_eq[OF f(4) f(2) f(3) f(1) ne])
  then have nx: "next_node RevisedResponseHandler st' = Inr GetRevisionResponse"
    by (simp add: next_node_def conditional_edge_def)
  have "step any_result (RevisedResponseHandler, scenario_C) = Inr (GetRevisionResponse, st')"
    using hd nx by (simp add: step_def run_node_def st'_def Let_def)
  moreover have "history_lengths st' = [2, 2, 2, 1, 1]"
    by (simp add: history_lengths_def f rs'_def revised_def mk_thread_def)
  moreover have "history_lengths scenario_C = [2, 2, 1, 1, 1]"
    by (simp add: history_lengths_def scenario_C_def no_update_def revised_def mk_thread_def)
  moreover have "revisions scenario_C = Some 1 \<and> index scenario_C = Some 2"
    by (simp add: scenario_C_def no_update_def)
  ultimately show ?thesis using run by simp
qed

lemma final_summary_step:
  "step result (FinalSummary, st) = Inr cfg \<Longrightarrow> fst cfg = END"
  by (auto simp: step_def next_node_def Let_def split: sum.splits)

text \<open>
  Claim C10. The router tests the budget before the end of the round: when, after the
  handler, the cursor equals \<open>threads\<close> and the last thread's history has length
  \<open>revisions + 1\<close>, the router answers \<^verbatim>\<open>summary\<close>, the engine moves to \<^verbatim>\<open>final_summary\<close>, and
  from there only to \<^verbatim>\<open>END\<close>: \<^verbatim>\<open>check_done\<close> is not run for that round.
\<close>

theorem budget_check_precedes_round_check:
  assumes run: "apply_node revised_response_handler st = Inr st'"
    and rs: "responses st' = Some rs"
    and i: "index st' = Some n" and n: "threads st' = Some n"
    and budget: "revisions st' = Some budget"
    and last: "int (length (content (last rs))) = budget + 1"
  shows "revision_router st' = Inr ''summary'' \<and>
         step result (RevisedResponseHandler, st) = Inr (FinalSummary, st') \<and>
         (\<forall>result' cfg. step result' (FinalSummary, st') = Inr cfg \<longrightarrow> fst cfg = END)"
proof -
  from run obtain upd where upd: "revised_response_handler st = Inr upd"
    and st': "st' = merge_update upd st"
    by (auto simp: apply_node_def split: sum.splits)
  from revised_response_handler_Inr[OF upd] obtain r i0 rs0 j where
    h: "j < length rs0"
    and u: "upd = no_update\<lparr> responses := Some (rs0[j := (rs0 ! j)\<lparr> content := content (rs0 ! j) @ [r] \<rparr>]),
                             index := Some (i0 + 1) \<rparr>"
    by blast
  have "rs = rs0[j := (rs0 ! j)\<lparr> content := content (rs0 ! j) @ [r] \<rparr>]"
    using rs by (simp add: st' u merge_update_def overwrite_def no_update_def)
  with h have ne: "rs \<noteq> []" by auto
  have router: "revision_router st' = Inr ''summary''"
    using last by (simp add: revision_router_eq[OF i n budget rs ne])
  then have "next_node RevisedResponseHandler st' = Inr FinalSummary"
    by (simp add: next_node_def conditional_edge_def)
  then have "step result (RevisedResponseHandler, st) = Inr (FinalSummary, st')"
    using upd by (simp add: step_def run_node_def st' Let_def)
  with router final_summary_step show ?thesis by blast
qed

theorem budget_check_precedes_round_check_witness:
  "map_sum id index (apply_node revised_response_handler round_end) = Inr (Some 5) \<and>
   map_sum id threads (apply_node revised_response_handler round_end) = Inr (Some 5) \<and>
   map_sum id history_lengths (apply_node revised_response_handler round_end) = Inr [2, 2, 2, 2, 2] \<and>
   map_sum id fst (step any_result (RevisedResponseHandler, round_end)) = Inr FinalSummary"
proof -
  define rs' where "rs' = [revised (mk_thread ''A'' 9) (mk_response ''A2'' 9),
                        revised (mk_thread ''B'' 8) (mk_response ''B2'' 9),
                        revised (mk_thread ''C'' 7) (mk_response ''C2'' 8),
                        revised (mk_thread ''A'' 9) (mk_response ''A3'' 9),
                        revised (mk_thread ''B'' 8) (mk_response ''B3'' 8)]"
  define st' where "st' = merge_update (no_update\<lparr> responses := Some rs', index := Some 5 \<rparr>) round_end"
  have hd: "revised_response_handler round_end = Inr (no_update\<lparr> responses := Some rs', index := Some 5 \<rparr>)"
    by (simp add: revised_response_handler_def round_end_def no_update_def py_position_def
          revised_def rs'_def)
  then have run: "apply_node revised_response_handler round_end = Inr st'"
    by (simp add: apply_node_def st'_def)
  have f: "responses st' = Some rs'" "index st' = Some 5" "threads st' = Some 5"
    "revisions st' = Some 1"
    by (simp_all add: st'_def merge_update_def overwrite_def no_update_def round_end_def)
  have l: "int (length (content (last rs'))) = 1 + 1"
    by (simp add: rs'_def revised_def mk_thread_def)
  from budget_check_precedes_round_check[OF run f l, of any_result]
  have "step any_result (RevisedResponseHandler, round_end) = Inr (FinalSummary, st')"
    by blast
  moreover have "history_lengths st' = [2, 2, 2, 2, 2]"
    by (simp add: history_lengths_def f rs'_def revised_def mk_thread_def)
  ultimately show ?thesis using run f by simp
qed

section \<open>Properties of the final summary\<close>

lemma chains_input_Inr:
  "question st = Some q \<Longrightarrow> responses st = Some rs \<Longrightarrow> chains_input st = Inr (q, map content rs)"
  by (simp add: chains_input_def)

text \<open>
  The claim as stated fails: the node does not take the final entry only. For a thread
  with the history \<open>draft one\<close>, \<open>final\<close> the input sent to the model holds both entries, and
  two populations with the same question and the same final entries, differing in a
  first entry, send the model different inputs.
\<close>

theorem final_summary_only_final_entries_counterexample:
  "map (\<lambda>x. last (content x)) (the (responses (summary_state ''draft one''))) =
   map (\<lambda>x. last (content x)) (the (responses (summary_state ''draft two''))) \<and>
   question (summary_state ''draft one'') = question (summary_state ''draft two'') \<and>
   map_sum id sent (create_final_summary_agent (summary_state ''draft one'')) =
     Inr (''q'', [[mk_response ''draft one'' 5, mk_response ''final'' 9]]) \<and>
   map_sum id sent (create_final_summary_agent (summary_state ''draft two'')) =
     Inr (''q'', [[mk_response ''draft two'' 5, mk_response ''final'' 9]]) \<and>
   mk_response ''draft one'' 5 \<noteq> mk_response ''draft two'' 5"
  by (simp add: summary_state_def no_update_def create_final_summary_agent_def
        chains_input_def mk_response_def)

text \<open>
  Claim C9 (amended). The final summary sends the model the question and, from every
  thread, the whole \<^verbatim>\<open>content\<close> list (every entry of every history, not the final one only),
  and returns the model's reply, whatever it is, as the final response. Its update sets
  \<^verbatim>\<open>final_response\<close> only, so the population (\<^verbatim>\<open>responses\<close>, \<^verbatim>\<open>discarded_responses\<close>) and every
  other key of the state are left as they were.
\<close>

theorem final_summary_reads_whole_chains:
  assumes q: "question st = Some q" and rs: "responses st = Some rs"
  shows "\<exists>call. create_final_summary_agent st = Inr call
     \<and> sent call = (q, map content rs)
     \<and> (\<forall>x\<in>set rs. \<forall>entry\<in>set (content x). entry \<in> set (concat (snd (sent call))))
     \<and> (\<forall>reply. on_reply call reply = no_update\<lparr> final_response := Some reply \<rparr>)
     \<and> (\<forall>result. run_node FinalSummary st result =
            Inr (no_update\<lparr> final_response := Some (reply_text result) \<rparr>))
     \<and> (\<forall>result. \<exists>st'. apply_node (\<lambda>s. run_node FinalSummary s result) st = Inr st'
            \<and> st' = st\<lparr> final_response := Some (reply_text result) \<rparr>
            \<and> responses st' = responses st
            \<and> discarded_responses st' = discarded_responses st)"
proof -
  define call where
    "call = Invoke (q, map content rs) (\<lambda>reply. no_update\<lparr> final_response := Some reply \<rparr>)"
  have c: "create_final_summary_agent st = Inr call"
    by (simp add: create_final_summary_agent_def chains_input_Inr[OF q rs] call_def)
  have s: "sent call = (q, map content rs)" by (simp add: call_def)
  have every: "\<forall>x\<in>set rs. \<forall>entry\<in>set (content x). entry \<in> set (concat (snd (sent call)))"
    unfolding s by auto
  have r: "\<forall>reply. on_reply call reply = no_update\<lparr> final_response := Some reply \<rparr>"
    by (simp add: call_def)
  have run: "run_node FinalSummary st result =
            Inr (no_update\<lparr> final_response := Some (reply_text result) \<rparr>)" for result
    by (simp add: run_node_def answered_def c call_def)
  have merged: "\<exists>st'. apply_node (\<lambda>s. run_node FinalSummary s result) st = Inr st'
            \<and> st' = st\<lparr> final_response := Some (reply_text result) \<rparr>
            \<and> responses st' = responses st
            \<and> discarded_responses st' = discarded_responses st" for result
    by (simp add: apply_node_def run merge_update_def overwrite_def append_only_def no_update_def)
  from c s every r run merged show ?thesis by blast
qed

theorem final_summary_reads_whole_chains_witness:
  "question (summary_state ''draft one'') = Some ''q'' \<and>
   (\<exists>call. create_final_summary_agent (summary_state ''draft one'') = Inr call \<and>
      sent call = (''q'', [[mk_response ''draft one'' 5, mk_response ''final'' 9]]) \<and>
      on_reply call ''answer'' = no_update\<lparr> final_response := Some ''answer'' \<rparr>) \<and>
   map_sum id responses
     (apply_node (\<lambda>s. run_node FinalSummary s any_result) (summary_state ''draft one''))
     = Inr (responses (summary_state ''draft one''))"
proof -
  define rs where "rs = [\<lparr> agent_name = ''GPT'',
        content = [mk_response ''draft one'' 5, mk_response ''final'' 9] \<rparr>]"
  have q: "question (summary_state ''draft one'') = Some ''q''"
    and r: "responses (summary_state ''draft one'') = Some rs"
    by (simp_all add: summary_state_def no_update_def rs_def)
  from final_summary_reads_whole_chains[OF q r]
  obtain call where c: "create_final_summary_agent (summary_state ''draft one'') = Inr call"
    and s: "sent call = (''q'', map content rs)"
    and a: "\<forall>reply. on_reply call reply = no_update\<lparr> final_response := Some reply \<rparr>"
    and m: "\<forall>result. \<exists>st'.
        apply_node (\<lambda>s. run_node FinalSummary s result) (summary_state ''draft one'') = Inr st'
        \<and> st' = (summary_state ''draft one'')\<lparr> final_response := Some (reply_text result) \<rparr>
        \<and> responses st' = responses (summary_state ''draft one'')
        \<and> discarded_responses st' = discarded_responses (summary_state ''draft one'')"
    by blast
  from s have s': "sent call = (''q'', [[mk_response ''draft one'' 5, mk_response ''final'' 9]])"
    by (simp add: rs_def)
  from m obtain st' where
    "apply_node (\<lambda>s. run_node FinalSummary s any_result) (summary_state ''draft one'') = Inr st'"
    and "responses st' = responses (summary_state ''draft one'')"
    by blast
  then have "map_sum id responses
     (apply_node (\<lambda>s. run_node FinalSummary s any_result) (summary_state ''draft one''))
     = Inr (responses (summary_state ''draft one''))"
    by simp
  with q c s' a show ?thesis by blast
qed

section \<open>The invariant of the main graph\<close>

lemma overwrite_simps:
  "overwrite None old = old" "overwrite (Some v) old = Some v"
  by (simp_all add: overwrite_def)

lemma merge_update_fields:
  "responses (merge_update upd st) = overwrite (responses upd) (responses st)"
  "threads (merge_update upd st) = overwrite (threads upd) (threads st)"
  "start (merge_update upd st) = overwrite (start upd) (start st)"
  "beams (merge_update upd st) = overwrite (beams upd) (beams st)"
  "index (merge_update upd st) = overwrite (index upd) (index st)"
  "revisions (merge_update upd st) = overwrite (revisions upd) (revisions st)"
  "done_flag (merge_update upd st) = overwrite (done_flag upd) (done_flag st)"
  by (simp_all add: merge_update_def)

lemma no_update_fields:
  "responses no_update = None" "threads no_update = None" "start no_update = None"
  "beams no_update = None" "index no_update = None" "revisions no_update = None"
  "done_flag no_update = None"
  by (simp_all add: no_update_def)

lemma same_shape_preserves:
  assumes "same_shape st' st"
  shows "initial_phase st' = initial_phase st" "revision_phase st' = revision_phase st"
    "selecting st' = selecting st" "assessing st' = assessing st"
  using assms
  by (simp_all add: same_shape_def initial_phase_def revision_phase_def selecting_def
        assessing_def configured_def)

lemma generation_chain_shape:
  "generation_chain sender result = Inr upd \<Longrightarrow> same_shape (merge_update upd st) st"
  by (auto simp: generation_chain_def join_graph_def same_shape_def merge_update_fields
        no_update_fields overwrite_simps split: if_splits)

lemma get_initial_response_shape:
  "get_initial_response st result = Inr upd \<Longrightarrow> same_shape (merge_update upd st) st"
  by (auto simp: get_initial_response_def generation_chain_shape split: sum.splits prod.splits)

lemma get_revision_response_shape:
  "get_revision_response st result = Inr upd \<Longrightarrow> same_shape (merge_update upd st) st"
  by (auto simp: get_revision_response_def generation_chain_shape split: sum.splits prod.splits)

lemma commenter_shape:
  "create_commenter_agent st result = Inr upd \<Longrightarrow> same_shape (merge_update upd st) st"
  by (auto simp: create_commenter_agent_def same_shape_def merge_update_fields
        no_update_fields overwrite_simps split: option.splits)

lemma scorer_shape:
  "create_scorer_agent st result = Inr upd \<Longrightarrow> same_shape (merge_update upd st) st"
  by (auto simp: create_scorer_agent_def same_shape_def merge_update_fields
        no_update_fields overwrite_simps split: option.splits)

lemma check_done_shape:
  "answered (create_check_done_agent st) reply = Inr upd \<Longrightarrow> same_shape (merge_update upd st) st"
  by (auto simp: create_check_done_agent_def answered_def same_shape_def merge_update_fields
        no_update_fields overwrite_simps split: sum.splits)


lemma step_Inr:
  "step result (nd, st) = Inr (nd', st') \<longleftrightarrow>
     (\<exists>upd. run_node nd st result = Inr upd \<and> st' = merge_update upd st \<and>
            next_node nd st' = Inr nd')"
  by (auto simp: step_def Let_def split: sum.splits)

lemma step_ask_question:
  assumes "step result (AskQuestion, st) = Inr (nd', st')"
  shows "nd' = GetInitialResponse \<and> initial_phase st'"
  using assms
  by (auto simp: step_Inr run_node_def next_node_def ask_question_def initial_phase_def
        merge_update_fields overwrite_simps uniform_def)

lemma step_get_initial_response:
  assumes "step result (GetInitialResponse, st) = Inr (nd', st')" "initial_phase st"
  shows "nd' = Commenter \<and> initial_phase st'"
  using assms
  by (auto simp: step_Inr run_node_def next_node_def
        same_shape_preserves[OF get_initial_response_shape])

lemma step_get_revision_response:
  assumes "step result (GetRevisionResponse, st) = Inr (nd', st')" "revision_phase st"
  shows "nd' = Commenter \<and> revision_phase st'"
  using assms
  by (auto simp: step_Inr run_node_def next_node_def
        same_shape_preserves[OF get_revision_response_shape])

lemma step_commenter:
  assumes "step result (Commenter, st) = Inr (nd', st')" "initial_phase st \<or> revision_phase st"
  shows "nd' = Scorer \<and> (initial_phase st' \<or> revision_phase st')"
  using assms
  by (auto simp: step_Inr run_node_def next_node_def
        same_shape_preserves[OF commenter_shape])

lemma scorer_router_initial:
  "initial_phase st \<Longrightarrow> scorer_router st = Inr ''initial_response_handler''"
  by (auto simp: initial_phase_def scorer_router_def)

lemma scorer_router_revision:
  "revision_phase st \<Longrightarrow> scorer_router st = Inr ''revised_response_handler''"
  by (auto simp: revision_phase_def configured_def scorer_router_def)

lemma step_scorer:
  assumes "step result (Scorer, st) = Inr (nd', st')" "initial_phase st \<or> revision_phase st"
  shows "(nd' = InitialResponseHandler \<and> initial_phase st') \<or>
         (nd' = RevisedResponseHandler \<and> revision_phase st')"
proof -
  from assms(1) obtain upd where upd: "create_scorer_agent st result = Inr upd"
    and st': "st' = merge_update upd st" and nx: "next_node Scorer st' = Inr nd'"
    by (auto simp: step_Inr run_node_def)
  note keep = same_shape_preserves[OF scorer_shape[OF upd], folded st']
  from assms(2) show ?thesis
  proof
    assume "initial_phase st"
    then have i: "initial_phase st'" by (simp add: keep)
    from nx scorer_router_initial[OF i] have "nd' = InitialResponseHandler"
      by (simp add: next_node_def conditional_edge_def)
    with i show ?thesis by simp
  next
    assume "revision_phase st"
    then have r: "revision_phase st'" by (simp add: keep)
    from nx scorer_router_revision[OF r] have "nd' = RevisedResponseHandler"
      by (simp add: next_node_def conditional_edge_def)
    with r show ?thesis by simp
  qed
qed


lemma step_initial_response_handler:
  assumes stp: "step result (InitialResponseHandler, st) = Inr (nd', st')"
    and inv: "initial_phase st"
  shows "(nd' = GetInitialResponse \<and> initial_phase st') \<or>
         (nd' = DifficultyAssessment \<and> assessing st') \<or>
         (nd' = BeamSearchAgent \<and> selecting st')"
proof -
  from inv obtain rs n s where h: "responses st = Some rs" "threads st = Some n"
    "start st = Some s" "uniform 1 rs" "int (length rs) < n"
    and cfg: "if s = 0 then beams st = Some 3 \<and> 3 \<le> n else n = 3"
    by (auto simp: initial_phase_def)
  from stp obtain upd where upd: "initial_response_handler st = Inr upd"
    and st': "st' = merge_update upd st" and nx: "next_node InitialResponseHandler st' = Inr nd'"
    by (auto simp: step_Inr run_node_def)
  from upd h(1) obtain r name next_name where
    u: "upd = no_update\<lparr> responses := Some (rs @ [\<lparr> agent_name = name, content = [r] \<rparr>]),
                           initial_response_agent := Some next_name \<rparr>"
    by (auto simp: initial_response_handler_def split: option.splits)
  let ?rs' = "rs @ [\<lparr> agent_name = name, content = [r] \<rparr>]"
  have f: "responses st' = Some ?rs'" "threads st' = Some n" "start st' = Some s"
    "beams st' = beams st"
    by (simp_all add: st' u merge_update_fields overwrite_simps no_update_fields h)
  have un: "uniform 1 ?rs'" using h(4) by (simp add: uniform_def)
  have router: "initial_response_router st' =
      Inr (if int (length ?rs') < n then ''get_initial_response''
           else if s \<noteq> 0 then ''difficulty_assessment'' else ''beam_search_agent'')"
    by (simp add: initial_response_router_def f)
  show ?thesis
  proof (cases "int (length ?rs') < n")
    case True
    with nx router have "nd' = GetInitialResponse"
      by (simp add: next_node_def conditional_edge_def)
    moreover have "initial_phase st'"
      using True un cfg f by (auto simp: initial_phase_def)
    ultimately show ?thesis by simp
  next
    case False
    with h(5) have len: "int (length ?rs') = n" by simp
    show ?thesis
    proof (cases "s = 0")
      case True
      with nx router False have "nd' = BeamSearchAgent"
        by (simp add: next_node_def conditional_edge_def)
      moreover have "selecting st'"
        using True cfg f un len by (auto simp: selecting_def configured_def)
      ultimately show ?thesis by simp
    next
      case nz: False
      with nx router False have "nd' = DifficultyAssessment"
        by (simp add: next_node_def conditional_edge_def)
      moreover from nz cfg len have "length ?rs' = 3" by simp
      then have "assessing st'" using f un by (auto simp: assessing_def)
      ultimately show ?thesis by simp
    qed
  qed
qed

lemma difficulty_lookup_shape:
  assumes "difficulty_lookup d = Inr cfg"
  shows "\<exists>n. threads cfg = Some n \<and> 3 \<le> n \<and> beams cfg = Some 3 \<and> start cfg = Some 0 \<and>
             responses cfg = None \<and> index cfg = None"
proof -
  from assms have "cfg = difficulty_entry 1 3 3 0 4 \<or> cfg = difficulty_entry 2 5 3 0 3 \<or>
             cfg = difficulty_entry 3 7 3 0 2 \<or> cfg = difficulty_entry 4 9 3 0 1"
    by (simp add: difficulty_lookup_cases split: if_splits)
  then show ?thesis
    by (elim disjE) (simp_all add: difficulty_entry_def no_update_fields)
qed

lemma step_difficulty_assessment:
  assumes stp: "step result (DifficultyAssessment, st) = Inr (nd', st')"
    and inv: "assessing st"
  shows "(nd' = GetInitialResponse \<and> initial_phase st') \<or>
         (nd' = BeamSearchAgent \<and> selecting st')"
proof -
  from inv obtain rs where h: "responses st = Some rs" "length rs = 3" "uniform 1 rs"
    by (auto simp: assessing_def)
  from stp obtain upd where upd: "create_difficulty_agent st result = Inr upd"
    and st': "st' = merge_update upd st" and nx: "next_node DifficultyAssessment st' = Inr nd'"
    by (auto simp: step_Inr run_node_def)
  from upd have "difficulty_lookup (reply_text result) = Inr upd"
    by (auto simp: create_difficulty_agent_def split: option.splits sum.splits if_splits)
  from difficulty_lookup_shape[OF this] obtain n where
    c: "threads upd = Some n" "3 \<le> n" "beams upd = Some 3" "start upd = Some 0"
       "responses upd = None" "index upd = None"
    by blast
  have f: "responses st' = Some rs" "threads st' = Some n" "start st' = Some 0"
    "beams st' = Some 3"
    by (simp_all add: st' merge_update_fields overwrite_simps c h)
  have router: "difficulty_router st' =
      Inr (if int (length rs) < n then ''get_initial_response'' else ''beam_search_agent'')"
    by (simp add: difficulty_router_def f)
  show ?thesis
  proof (cases "int (length rs) < n")
    case True
    with nx router have "nd' = GetInitialResponse"
      by (simp add: next_node_def conditional_edge_def)
    moreover have "initial_phase st'"
      using True f h c by (auto simp: initial_phase_def)
    ultimately show ?thesis by simp
  next
    case False
    with nx router have "nd' = BeamSearchAgent"
      by (simp add: next_node_def conditional_edge_def)
    moreover from False h(2) c(2) have "int (length rs) = n" by simp
    then have "selecting st'"
      using f h c by (auto simp: selecting_def configured_def)
    ultimately show ?thesis by simp
  qed
qed


lemma refilled_length:
  assumes b1: "1 \<le> b" and bn: "b \<le> n" and len: "nat b \<le> length S"
  shows "length (concat (map (replicate (nat (n div b))) (take (nat b) S))
                 @ take (nat (n mod b)) (take (nat b) S)) = nat n"
proof -
  have lk: "length (take (nat b) S) = nat b" using len by simp
  have "n mod b < b" using b1 by simp
  then have "nat (n mod b) \<le> nat b" by simp
  then have "length (take (nat (n mod b)) (take (nat b) S)) = nat (n mod b)"
    using lk by (simp only: length_take)
  then show ?thesis
    using lk by (simp only: length_append length_concat_replicate refill_length[OF b1 bn])
qed

lemma refilled_subset:
  "set (concat (map (replicate q) (take k S)) @ take r (take k S)) \<subseteq> set S"
proof -
  have "set (concat (map (replicate q) (take k S))) \<subseteq> set (take k S)"
    by (induction "take k S" arbitrary: k S) auto
  moreover have "set (take r (take k S)) \<subseteq> set (take k S)" by (rule set_take_subset)
  moreover have "set (take k S) \<subseteq> set S" by (rule set_take_subset)
  ultimately show ?thesis by auto
qed

lemma round_shape_start: "round_shape L 0 rs = uniform L rs"
  by (auto simp: round_shape_def uniform_def list_all_iff map_replicate_const[symmetric]
           simp del: map_replicate_const intro: map_cong)


lemma step_beam_search_agent:
  assumes stp: "step result (BeamSearchAgent, st) = Inr (nd', st')"
    and inv: "selecting st"
  shows "nd' = GetRevisionResponse \<and> revision_phase st'"
proof -
  from inv obtain rs n L where h: "responses st = Some rs" "int (length rs) = n" "uniform L rs"
    and c: "start st = Some 0" "beams st = Some 3" "threads st = Some n" "3 \<le> n"
    by (auto simp: selecting_def configured_def)
  from stp obtain upd where upd: "beam_search_agent st = Inr upd"
    and st': "st' = merge_update upd st" and nx: "next_node BeamSearchAgent st' = Inr nd'"
    by (auto simp: step_Inr run_node_def)
  have sc: "\<forall>x\<in>set rs. scored x" by (rule beam_search_agent_Inr_scored[OF upd h(1)])
  have b1: "(1::int) \<le> 3" by simp
  have bl: "3 \<le> int (length rs)" using h(2) c(4) by simp
  let ?final = "concat (map (replicate (nat (n div 3))) (take (nat 3) (ranked rs)))
                @ take (nat (n mod 3)) (take (nat 3) (ranked rs))"
  have u: "upd = no_update\<lparr> responses := Some ?final,
      discarded_responses := Some (drop (nat 3) (ranked rs)), index := Some 0 \<rparr>"
    using beam_search_agent_result[OF h(1) sc c(2) c(3) b1 bl] upd by simp
  have "nat 3 \<le> length (ranked rs)" using bl by (simp add: length_ranked)
  from refilled_length[OF b1 c(4) this] have len: "length ?final = nat n" .
  have "set ?final \<subseteq> set (ranked rs)" by (rule refilled_subset)
  then have "set ?final \<subseteq> set rs" by (simp only: set_ranked)
  with h(3) have un: "uniform L ?final" by (auto simp: uniform_def list_all_iff)
  have f: "responses st' = Some ?final" "index st' = Some 0" "start st' = Some 0"
    "beams st' = Some 3" "threads st' = Some n"
    by (simp_all add: st' u merge_update_fields overwrite_simps no_update_fields c)
  have "revision_phase st'"
    unfolding revision_phase_def configured_def
    using f c(4) len un
    by (intro exI[of _ ?final] exI[of _ n] exI[of _ L] exI[of _ "0::nat"])
       (simp add: round_shape_start)
  moreover from nx have "nd' = GetRevisionResponse" by (simp add: next_node_def)
  ultimately show ?thesis by simp
qed

lemma round_shape_nth:
  assumes "round_shape L i rs" "i < length rs"
  shows "length (content (rs ! i)) = L"
proof -
  from assms(2) have "length (content (rs ! i)) = map (\<lambda>x. length (content x)) rs ! i" by simp
  also have "\<dots> = (replicate i (Suc L) @ replicate (length rs - i) L) ! i"
    using assms(1) by (simp only: round_shape_def)
  also have "\<dots> = L" using assms(2) by (simp add: nth_append)
  finally show ?thesis .
qed

lemma round_shape_advance:
  assumes sh: "round_shape L i rs" and i: "i < length rs"
    and x: "length (content x) = Suc L"
  shows "round_shape L (Suc i) (rs[i := x])"
proof -
  from i obtain m where m: "length rs - i = Suc m" "length rs - Suc i = m"
    by (metis Suc_diff_Suc)
  have "map (\<lambda>x. length (content x)) (rs[i := x])
      = (map (\<lambda>x. length (content x)) rs)[i := Suc L]"
    by (simp add: map_update x)
  also have "\<dots> = (replicate i (Suc L) @ replicate (Suc m) L)[i := Suc L]"
    using sh m(1) by (simp only: round_shape_def)
  also have "\<dots> = replicate i (Suc L) @ (Suc L # replicate m L)"
    by (simp add: list_update_append)
  also have "\<dots> = replicate (Suc i) (Suc L) @ replicate m L"
    by (simp add: replicate_append_same)
  finally show ?thesis by (simp add: round_shape_def m(2))
qed

lemma round_shape_complete:
  assumes "round_shape L (length rs) rs"
  shows "uniform (Suc L) rs"
proof -
  from assms have eq: "map (\<lambda>x. length (content x)) rs = replicate (length rs) (Suc L)"
    by (simp add: round_shape_def)
  have "length (content x) = Suc L" if "x \<in> set rs" for x
  proof -
    from that have "length (content x) \<in> set (map (\<lambda>x. length (content x)) rs)" by auto
    then show ?thesis unfolding eq by simp
  qed
  then show ?thesis by (simp add: uniform_def list_all_iff)
qed


lemma py_position_nat: "i < length rs \<Longrightarrow> py_position rs (int i) = Inr i"
  by (simp add: py_position_def)

lemma step_revised_response_handler:
  assumes stp: "step result (RevisedResponseHandler, st) = Inr (nd', st')"
    and inv: "revision_phase st"
  shows "(nd' = GetRevisionResponse \<and> revision_phase st') \<or>
         (nd' = CheckDone \<and> selecting st') \<or> nd' = FinalSummary"
proof -
  from inv obtain rs n L i where h: "responses st = Some rs" "int (length rs) = n"
    "index st = Some (int i)" "i < length rs" "round_shape L i rs"
    and c: "start st = Some 0" "beams st = Some 3" "threads st = Some n" "3 \<le> n"
    by (auto simp: revision_phase_def configured_def)
  from stp obtain upd where upd: "revised_response_handler st = Inr upd"
    and st': "st' = merge_update upd st" and nx: "next_node RevisedResponseHandler st' = Inr nd'"
    by (auto simp: step_Inr run_node_def)
  from revised_response_handler_Inr[OF upd] h(1,3) py_position_nat[OF h(4)] obtain r where
    u: "upd = no_update\<lparr> responses := Some (rs[i := (rs ! i)\<lparr> content := content (rs ! i) @ [r] \<rparr>]),
                           index := Some (int i + 1) \<rparr>"
    by auto
  let ?x = "(rs ! i)\<lparr> content := content (rs ! i) @ [r] \<rparr>"
  let ?rs' = "rs[i := ?x]"
  have f: "responses st' = Some ?rs'" "index st' = Some (int (Suc i))" "start st' = Some 0"
    "beams st' = Some 3" "threads st' = Some n"
    by (simp_all add: st' u merge_update_fields overwrite_simps no_update_fields c)
  have "length (content ?x) = Suc L" using round_shape_nth[OF h(5) h(4)] by simp
  from round_shape_advance[OF h(5) h(4) this] have sh: "round_shape L (Suc i) ?rs'" .
  have ne: "?rs' \<noteq> []" using h(4) by auto
  from nx obtain label where lab: "revision_router st' = Inr label"
    and dest: "map_of [(''get_revision_response'', GetRevisionResponse),
                       (''check_done'', CheckDone), (''summary'', FinalSummary)] label = Some nd'"
    by (auto simp: next_node_def conditional_edge_def split: sum.splits option.splits)
  from lab obtain budget where budget: "revisions st' = Some budget"
    by (auto simp: revision_router_def f split: option.splits)
  note router = revision_router_eq[OF f(2) f(5) budget f(1) ne]
  consider (summary) "label = ''summary''"
    | (check) "label = ''check_done''" "int (Suc i) = n"
    | (again) "label = ''get_revision_response''" "int (Suc i) \<noteq> n"
    using lab unfolding router by (auto split: if_splits)
  then show ?thesis
  proof cases
    case summary
    with dest show ?thesis by simp
  next
    case check
    with dest have "nd' = CheckDone" by simp
    moreover from check(2) h(2) have "Suc i = length ?rs'" by simp
    with sh have "uniform (Suc L) ?rs'" by (metis round_shape_complete)
    then have "selecting st'"
      using f c(4) h(2) by (auto simp: selecting_def configured_def)
    ultimately show ?thesis by simp
  next
    case again
    with dest have "nd' = GetRevisionResponse" by simp
    moreover from again(2) h(2,4) have "Suc i < length ?rs'" by auto
    then have "revision_phase st'"
      unfolding revision_phase_def configured_def
      using f c(4) h(2) sh
      by (intro exI[of _ ?rs'] exI[of _ n] exI[of _ L] exI[of _ "Suc i"]) simp
    ultimately show ?thesis by simp
  qed
qed

lemma step_check_done:
  assumes stp: "step result (CheckDone, st) = Inr (nd', st')"
    and inv: "selecting st"
  shows "(nd' = BeamSearchAgent \<and> selecting st') \<or> nd' = FinalSummary"
proof -
  from stp obtain upd where
    upd: "answered (create_check_done_agent st) (reply_text result) = Inr upd"
    and st': "st' = merge_update upd st" and nx: "next_node CheckDone st' = Inr nd'"
    by (auto simp: step_Inr run_node_def)
  from inv have "selecting st'"
    by (simp add: same_shape_preserves[OF check_done_shape[OF upd], folded st'])
  moreover from nx have "nd' = BeamSearchAgent \<or> nd' = FinalSummary"
    by (auto simp: next_node_def conditional_edge_def done_router_def
             split: sum.splits option.splits if_splits)
  ultimately show ?thesis by auto
qed

lemma step_final:
  assumes "step result (nd, st) = Inr (nd', st')" "nd = FinalSummary \<or> nd = END"
  shows "nd' = END"
  using assms by (auto simp: step_Inr next_node_def)

lemma step_preserves_invariant:
  assumes "graph_invariant cfg" "step result cfg = Inr cfg'"
  shows "graph_invariant cfg'"
proof -
  obtain nd st where cfg: "cfg = (nd, st)" by (cases cfg)
  obtain nd' st' where cfg': "cfg' = (nd', st')" by (cases cfg')
  note stp = assms(2)[unfolded cfg cfg']
  note inv = assms(1)[unfolded cfg]
  show ?thesis
  proof (cases nd)
    case AskQuestion
    with step_ask_question[of result st nd' st'] stp show ?thesis by (auto simp: cfg')
  next
    case GetInitialResponse
    with step_get_initial_response[of result st nd' st'] stp inv show ?thesis
      by (auto simp: cfg')
  next
    case GetRevisionResponse
    with step_get_revision_response[of result st nd' st'] stp inv show ?thesis
      by (auto simp: cfg')
  next
    case DifficultyAssessment
    with step_difficulty_assessment[of result st nd' st'] stp inv show ?thesis
      by (auto simp: cfg')
  next
    case Commenter
    with step_commenter[of result st nd' st'] stp inv show ?thesis by (auto simp: cfg')
  next
    case Scorer
    with step_scorer[of result st nd' st'] stp inv show ?thesis by (auto simp: cfg')
  next
    case CheckDone
    with step_check_done[of result st nd' st'] stp inv show ?thesis by (auto simp: cfg')
  next
    case FinalSummary
    with step_final[of result nd st nd' st'] stp show ?thesis by (auto simp: cfg')
  next
    case BeamSearchAgent
    with step_beam_search_agent[of result st nd' st'] stp inv show ?thesis by (auto simp: cfg')
  next
    case InitialResponseHandler
    with step_initial_response_handler[of result st nd' st'] stp inv show ?thesis
      by (auto simp: cfg')
  next
    case RevisedResponseHandler
    with step_revised_response_handler[of result st nd' st'] stp inv show ?thesis
      by (auto simp: cfg')
  next
    case END
    with step_final[of result nd st nd' st'] stp show ?thesis by (auto simp: cfg')
  qed
qed

lemma reachable_invariant: "reachable cfg \<Longrightarrow> graph_invariant cfg"
proof (induction rule: reachable.induct)
  case (entry st)
  show ?case by simp
next
  case (move cfg result cfg')
  then show ?case by (metis step_preserves_invariant)
qed

lemma exec_reachable:
  "reachable cfg \<Longrightarrow> exec results cfg = Inr cfg' \<Longrightarrow> reachable cfg'"
proof (induction results arbitrary: cfg)
  case Nil
  then show ?case by simp
next
  case (Cons result results)
  show ?case
  proof (cases "fst cfg = END")
    case True
    with Cons.prems show ?thesis by simp
  next
    case False
    with Cons.prems(2) obtain cfg1 where s: "step result cfg = Inr cfg1"
      and e: "exec results cfg1 = Inr cfg'"
      by (auto split: sum.splits)
    from reachable.move[OF Cons.prems(1) False s] have "reachable cfg1" .
    from Cons.IH[OF this e] show ?thesis .
  qed
qed

text \<open>
  Claim C8. In every configuration a run can reach, whatever the model calls return, when
  the engine is at \<^verbatim>\<open>check_done\<close> all threads have histories of the same length.
\<close>

theorem check_done_only_on_equal_histories:
  assumes "reachable (CheckDone, st)"
  shows "\<exists>rs L. responses st = Some rs \<and> (\<forall>x\<in>set rs. length (content x) = L)"
proof -
  from reachable_invariant[OF assms] have "selecting st" by simp
  then show ?thesis by (auto simp: selecting_def uniform_def list_all_iff)
qed

lemma first_round_value:
  "map_sum id (\<lambda>c. (fst c, history_lengths (snd c))) first_round = Inr (CheckDone, [2, 2, 2])"
  by code_simp

theorem check_done_only_on_equal_histories_witness:
  "map_sum id (\<lambda>c. (fst c, history_lengths (snd c))) first_round = Inr (CheckDone, [2, 2, 2]) \<and>
   (\<exists>st rs L. first_round = Inr (CheckDone, st) \<and> reachable (CheckDone, st) \<and>
      responses st = Some rs \<and> list_all (\<lambda>x. length (content x) = L) rs)"
proof -
  have "\<exists>st. first_round = Inr (CheckDone, st)"
  proof (cases first_round)
    case (Inl e)
    from first_round_value show ?thesis unfolding Inl by simp
  next
    case (Inr c)
    from first_round_value have "fst c = CheckDone" unfolding Inr by simp
    then show ?thesis unfolding Inr by (cases c) simp
  qed
  then obtain st where st: "first_round = Inr (CheckDone, st)" ..
  have "reachable (AskQuestion, no_update\<lparr> question := Some ''q'' \<rparr>)" by (rule reachable.entry)
  from exec_reachable[OF this st[unfolded first_round_def]] have r: "reachable (CheckDone, st)" .
  from check_done_only_on_equal_histories[OF r] st r first_round_value
  show ?thesis by (auto simp: list_all_iff)
qed

section \<open>Independence of the clones\<close>

lemma thread_fields_append:
  "thread_fields h a = Inr x \<Longrightarrow> thread_fields (h @ ext) a = Inr x"
  by (auto simp: thread_fields_def nth_append split: if_splits)

lemma list_items_append:
  "list_items h a = Inr x \<Longrightarrow> list_items (h @ ext) a = Inr x"
  by (auto simp: list_items_def nth_append split: if_splits)

lemma response_value_append:
  "response_value h a = Inr x \<Longrightarrow> response_value (h @ ext) a = Inr x"
  by (auto simp: response_value_def nth_append split: if_splits)

lemma response_values_append:
  "response_values h as = Inr xs \<Longrightarrow> response_values (h @ ext) as = Inr xs"
  by (induction as arbitrary: xs) (auto simp: response_value_append split: sum.splits)

lemma thread_value_append:
  "thread_value h t = Inr x \<Longrightarrow> thread_value (h @ ext) t = Inr x"
  by (auto simp: thread_value_def thread_fields_append list_items_append response_values_append
           split: sum.splits prod.splits)

lemma footprint_append:
  "thread_value h t = Inr x \<Longrightarrow> footprint (h @ ext) t = footprint h t"
  by (auto simp: thread_value_def footprint_def thread_fields_append list_items_append
           split: sum.splits prod.splits)

lemma thread_fields_update: "a \<noteq> t \<Longrightarrow> thread_fields (h[a := v]) t = thread_fields h t"
  by (simp add: thread_fields_def)

lemma list_items_update: "a \<noteq> c \<Longrightarrow> list_items (h[a := v]) c = list_items h c"
  by (simp add: list_items_def)

lemma response_value_update: "a \<noteq> b \<Longrightarrow> response_value (h[a := v]) b = response_value h b"
  by (simp add: response_value_def)

lemma response_values_update:
  "a \<notin> set as \<Longrightarrow> response_values (h[a := v]) as = response_values h as"
  by (induction as) (simp_all add: response_value_update cong: sum.case_cong)

lemma thread_value_frame:
  assumes "a \<notin> set (footprint h t)"
  shows "thread_value (h[a := v]) t = thread_value h t"
proof (cases "thread_fields h t")
  case (Inl e)
  with assms have "a \<noteq> t" by (simp add: footprint_def)
  with Inl show ?thesis by (simp add: thread_value_def thread_fields_update)
next
  case (Inr p)
  obtain name c where p: "p = (name, c)" by (cases p)
  show ?thesis
  proof (cases "list_items h c")
    case (Inl e)
    with assms Inr p have "a \<noteq> t" "a \<noteq> c" by (simp_all add: footprint_def)
    with Inl Inr p show ?thesis
      by (simp add: thread_value_def thread_fields_update list_items_update)
  next
    case items: (Inr items)
    with assms Inr p have "a \<noteq> t" "a \<noteq> c" "a \<notin> set items" by (simp_all add: footprint_def)
    with items Inr p show ?thesis
      by (simp add: thread_value_def thread_fields_update list_items_update
            response_values_update)
  qed
qed

lemma response_values_bound:
  "response_values h as = Inr xs \<Longrightarrow> \<forall>a\<in>set as. a < length h"
  by (induction as arbitrary: xs) (auto simp: response_value_def split: sum.splits if_splits)

lemma footprint_bound:
  assumes "thread_value h t = Inr x"
  shows "\<forall>a\<in>set (footprint h t). a < length h"
proof -
  from assms obtain name c items rs where f: "thread_fields h t = Inr (name, c)"
    "list_items h c = Inr items" "response_values h items = Inr rs"
    by (auto simp: thread_value_def split: sum.splits prod.splits)
  from f(1) have "t < length h" by (auto simp: thread_fields_def split: if_splits)
  moreover from f(2) have "c < length h" by (auto simp: list_items_def split: if_splits)
  moreover note response_values_bound[OF f(3)]
  ultimately show ?thesis using f by (simp add: footprint_def)
qed

lemma thread_values_nth:
  "thread_values h ts = Inr xs \<Longrightarrow>
   length xs = length ts \<and> (\<forall>i<length ts. thread_value h (ts ! i) = Inr (xs ! i))"
proof (induction ts arbitrary: xs)
  case Nil
  then show ?case by simp
next
  case (Cons t ts)
  from Cons.prems obtain x xs' where x: "thread_value h t = Inr x"
    and xs': "thread_values h ts = Inr xs'" and xs: "xs = x # xs'"
    by (auto split: sum.splits)
  from Cons.IH[OF xs'] x xs show ?case by (auto simp: nth_Cons split: nat.splits)
qed


lemma memo_ok_append: "memo_ok base h memo \<Longrightarrow> memo_ok base (h @ ext) memo"
  by (auto simp: memo_ok_def list_all_iff response_value_append)

lemma memo_ok_lookup:
  assumes "memo_ok base h memo" "map_of memo a = Some a'"
  shows "base \<le> a' \<and> a' < length h \<and>
         (\<exists>r. response_value h a = Inr r \<and> response_value h a' = Inr r)"
proof -
  from assms(2) have "(a, a') \<in> set memo" by (rule map_of_SomeD)
  with assms(1) show ?thesis by (auto simp: memo_ok_def list_all_iff)
qed

lemma response_value_new: "response_value (h @ [ResponseDict r]) (length h) = Inr r"
  by (simp add: response_value_def)

lemma copy_items_spec:
  assumes "copy_items h memo items = Inr (h', memo', items')"
    and "memo_ok base h memo" and "base \<le> length h"
    and "response_values h items = Inr rs"
  shows "(\<exists>ext. h' = h @ ext) \<and> (\<forall>x\<in>set items'. base \<le> x \<and> x < length h') \<and>
         response_values h' items' = Inr rs"
  using assms
proof (induction items arbitrary: h memo h' memo' items' rs)
  case Nil
  then show ?case by simp
next
  case (Cons a as)
  from Cons.prems(4) obtain r rs0 where r: "response_value h a = Inr r"
    and rs0: "response_values h as = Inr rs0" and rs: "rs = r # rs0"
    by (auto split: sum.splits)
  show ?case
  proof (cases "map_of memo a")
    case (Some a')
    with Cons.prems(1) obtain bs where rec: "copy_items h memo as = Inr (h', memo', bs)"
      and items': "items' = a' # bs"
      by (auto split: sum.splits)
    from Cons.IH[OF rec Cons.prems(2,3) rs0] obtain ext where
      ih: "h' = h @ ext" "\<forall>x\<in>set bs. base \<le> x \<and> x < length h'"
          "response_values h' bs = Inr rs0"
      by blast
    from memo_ok_lookup[OF Cons.prems(2) Some] r have
      m: "base \<le> a'" "a' < length h" "response_value h a' = Inr r"
      by auto
    have "response_value h' a' = Inr r" using m(3) ih(1) by (simp add: response_value_append)
    with ih m items' rs show ?thesis by auto
  next
    case None
    with Cons.prems(1) r obtain bs where
      rec: "copy_items (h @ [ResponseDict r]) ((a, length h) # memo) as = Inr (h', memo', bs)"
      and items': "items' = length h # bs"
      by (auto split: sum.splits)
    have mo: "memo_ok base (h @ [ResponseDict r]) ((a, length h) # memo)"
      using memo_ok_append[OF Cons.prems(2), of "[ResponseDict r]"] Cons.prems(3) r
      by (simp add: memo_ok_def response_value_new response_value_append)
    have bl: "base \<le> length (h @ [ResponseDict r])" using Cons.prems(3) by simp
    have rs1: "response_values (h @ [ResponseDict r]) as = Inr rs0"
      by (rule response_values_append[OF rs0])
    from Cons.IH[OF rec mo bl rs1] obtain ext where
      ih: "h' = (h @ [ResponseDict r]) @ ext" "\<forall>x\<in>set bs. base \<le> x \<and> x < length h'"
          "response_values h' bs = Inr rs0"
      by blast
    have ext: "h' = h @ (ResponseDict r # ext)" using ih(1) by simp
    have new: "response_value h' (length h) = Inr r"
      unfolding ih(1) by (rule response_value_append[OF response_value_new])
    have "length h < length h'" using ext by simp
    with ext ih(2,3) new items' rs Cons.prems(3) show ?thesis by auto
  qed
qed

lemma copy_items_total:
  assumes "response_values h items = Inr rs"
  shows "\<exists>res. copy_items h memo items = Inr res"
  using assms
proof (induction items arbitrary: h memo rs)
  case Nil
  then show ?case by simp
next
  case (Cons a as)
  from Cons.prems obtain r rs0 where r: "response_value h a = Inr r"
    and rs0: "response_values h as = Inr rs0"
    by (auto split: sum.splits)
  show ?case
  proof (cases "map_of memo a")
    case (Some a')
    from Cons.IH[OF rs0, of memo] obtain res where "copy_items h memo as = Inr res" by blast
    with Some show ?thesis by (cases res) (auto split: prod.splits)
  next
    case None
    from Cons.IH[OF response_values_append[OF rs0], of "[ResponseDict r]" "(a, length h) # memo"]
    obtain res where "copy_items (h @ [ResponseDict r]) ((a, length h) # memo) as = Inr res"
      by blast
    with None r show ?thesis by (cases res) (auto split: prod.splits)
  qed
qed

lemma deepcopy_spec:
  assumes dc: "deepcopy h t = Inr (h', t')" and val: "thread_value h t = Inr x"
  shows "(\<exists>ext. h' = h @ ext) \<and> thread_value h' t' = Inr x \<and>
         (\<forall>a\<in>set (footprint h' t'). length h \<le> a \<and> a < length h')"
proof -
  from val obtain name c items rs where f: "thread_fields h t = Inr (name, c)"
    "list_items h c = Inr items" "response_values h items = Inr rs"
    and x: "x = \<lparr> agent_name = name, content = rs \<rparr>"
    by (auto simp: thread_value_def split: sum.splits prod.splits)
  from dc f obtain h1 memo items' where ci: "copy_items h [] items = Inr (h1, memo, items')"
    and h': "h' = h1 @ [ContentList items', ThreadDict name (length h1)]"
    and t': "t' = Suc (length h1)"
    by (auto simp: deepcopy_def split: sum.splits prod.splits)
  have "memo_ok (length h) h []" by (simp add: memo_ok_def)
  from copy_items_spec[OF ci this _ f(3)] obtain ext where
    c: "h1 = h @ ext" "\<forall>a\<in>set items'. length h \<le> a \<and> a < length h1"
       "response_values h1 items' = Inr rs"
    by auto
  have tf: "thread_fields h' t' = Inr (name, length h1)"
    by (simp add: h' t' thread_fields_def nth_append)
  have li: "list_items h' (length h1) = Inr items'"
    by (simp add: h' list_items_def nth_append)
  have rv: "response_values h' items' = Inr rs"
    unfolding h' by (rule response_values_append[OF c(3)])
  have "thread_value h' t' = Inr x" by (simp add: thread_value_def tf li rv x)
  moreover have "footprint h' t' = t' # length h1 # items'" by (simp add: footprint_def tf li)
  moreover have "length h \<le> length h1" using c(1) by simp
  moreover have "h' = h @ (ext @ [ContentList items', ThreadDict name (length h1)])"
    by (simp add: h' c(1))
  ultimately show ?thesis using c(2) t' h' by auto
qed

lemma deepcopy_total:
  assumes "thread_value h t = Inr x"
  shows "\<exists>res. deepcopy h t = Inr res"
proof -
  from assms obtain name c items rs where f: "thread_fields h t = Inr (name, c)"
    "list_items h c = Inr items" "response_values h items = Inr rs"
    by (auto simp: thread_value_def split: sum.splits prod.splits)
  from copy_items_total[OF f(3), of "[]"] obtain res where "copy_items h [] items = Inr res"
    by blast
  with f show ?thesis by (cases res) (auto simp: deepcopy_def split: prod.splits)
qed


lemma footprint_self: "t \<in> set (footprint h t)"
  by (simp add: footprint_def split: sum.splits prod.splits)

lemma separate_clones_snoc:
  assumes sep: "separate_clones base h acc" and base: "base \<le> length h"
    and dc: "deepcopy h t = Inr (h', t')" and val: "thread_value h t = Inr x"
  shows "separate_clones base h' (acc @ [t'])"
proof -
  from deepcopy_spec[OF dc val] obtain ext where ext: "h' = h @ ext"
    and new_val: "thread_value h' t' = Inr x"
    and new_fp: "\<forall>a\<in>set (footprint h' t'). length h \<le> a \<and> a < length h'"
    by blast
  have old: "(\<exists>y. thread_value h' u = Inr y) \<and> footprint h' u = footprint h u \<and>
             (\<forall>a\<in>set (footprint h u). base \<le> a \<and> a < length h)"
    if "u \<in> set acc" for u
  proof -
    from sep that obtain y where y: "thread_value h u = Inr y"
      and b: "\<forall>a\<in>set (footprint h u). base \<le> a \<and> a < length h"
      by (auto simp: separate_clones_def)
    from y have "thread_value h' u = Inr y" "footprint h' u = footprint h u"
      unfolding ext by (rule thread_value_append, rule footprint_append)
    with b show ?thesis by simp
  qed
  have fresh: "t' \<notin> set acc"
  proof
    assume "t' \<in> set acc"
    with old[of t'] footprint_self[of t' h] have "t' < length h" by auto
    moreover from new_fp footprint_self[of t' h'] have "length h \<le> t'" by auto
    ultimately show False by simp
  qed
  have disj: "set (footprint h' u) \<inter> set (footprint h' t') = {}" if "u \<in> set acc" for u
  proof -
    have "a < length h" if "a \<in> set (footprint h' u)" for a
      using old[OF \<open>u \<in> set acc\<close>] that by auto
    with new_fp show ?thesis by fastforce
  qed
  have len: "length h \<le> length h'" using ext by simp
  show ?thesis
    unfolding separate_clones_def
  proof (intro conjI ballI impI)
    show "distinct (acc @ [t'])" using sep fresh by (simp add: separate_clones_def)
  next
    fix u assume "u \<in> set (acc @ [t'])"
    then show "\<exists>y. thread_value h' u = Inr y" using old new_val by auto
  next
    fix u a assume "u \<in> set (acc @ [t'])" "a \<in> set (footprint h' u)"
    then show "base \<le> a" using old new_fp base by (cases "u = t'") auto
  next
    fix u a assume "u \<in> set (acc @ [t'])" "a \<in> set (footprint h' u)"
    then show "a < length h'" using old new_fp len by (cases "u = t'") fastforce+
  next
    fix u w assume u: "u \<in> set (acc @ [t'])" and w: "w \<in> set (acc @ [t'])" and ne: "u \<noteq> w"
    show "set (footprint h' u) \<inter> set (footprint h' w) = {}"
    proof (cases "u = t'")
      case True
      with w ne have "w \<in> set acc" by auto
      from disj[OF this] True show ?thesis by auto
    next
      case False
      with u have ua: "u \<in> set acc" by auto
      show ?thesis
      proof (cases "w = t'")
        case True
        with disj[OF ua] show ?thesis by simp
      next
        case False
        with w have wa: "w \<in> set acc" by auto
        from sep ua wa ne have "set (footprint h u) \<inter> set (footprint h w) = {}"
          by (auto simp: separate_clones_def)
        with old[OF ua] old[OF wa] show ?thesis by simp
      qed
    qed
  qed
qed

lemma append_copies_store_sep:
  assumes "append_copies_store is t h acc = Inr (h', acc')" "thread_value h t = Inr x"
    "separate_clones base h acc" "base \<le> length h"
  shows "(\<exists>ext. h' = h @ ext) \<and> separate_clones base h' acc'"
  using assms
proof (induction "is" arbitrary: h acc)
  case Nil
  then show ?case by simp
next
  case (Cons i "is")
  from Cons.prems(1) obtain h1 t1 where dc: "deepcopy h t = Inr (h1, t1)"
    and rec: "append_copies_store is t h1 (acc @ [t1]) = Inr (h', acc')"
    by (auto split: sum.splits)
  from deepcopy_spec[OF dc Cons.prems(2)] obtain ext1 where e1: "h1 = h @ ext1" by blast
  have v1: "thread_value h1 t = Inr x" unfolding e1 by (rule thread_value_append[OF Cons.prems(2)])
  have s1: "separate_clones base h1 (acc @ [t1])"
    by (rule separate_clones_snoc[OF Cons.prems(3,4) dc Cons.prems(2)])
  have b1: "base \<le> length h1" using Cons.prems(4) e1 by simp
  from Cons.IH[OF rec v1 s1 b1] obtain ext where "h' = h1 @ ext" "separate_clones base h' acc'"
    by blast
  with e1 show ?case by auto
qed

lemma clone_loop_store_sep:
  assumes "clone_loop_store n b best h acc = Inr (h', acc')"
    "\<forall>t\<in>set best. \<exists>x. thread_value h t = Inr x"
    "separate_clones base h acc" "base \<le> length h"
  shows "(\<exists>ext. h' = h @ ext) \<and> separate_clones base h' acc'"
  using assms
proof (induction best arbitrary: h acc)
  case Nil
  then show ?case by simp
next
  case (Cons t best)
  from Cons.prems(1) obtain q h1 acc1 where
    ac: "append_copies_store (py_range q) t h acc = Inr (h1, acc1)"
    and rec: "clone_loop_store n b best h1 acc1 = Inr (h', acc')"
    by (auto split: sum.splits)
  from Cons.prems(2) obtain x where x: "thread_value h t = Inr x" by auto
  from append_copies_store_sep[OF ac x Cons.prems(3,4)] obtain ext1 where
    e1: "h1 = h @ ext1" and s1: "separate_clones base h1 acc1"
    by blast
  have v1: "\<forall>t\<in>set best. \<exists>x. thread_value h1 t = Inr x"
    using Cons.prems(2) unfolding e1 by (auto intro: thread_value_append)
  have b1: "base \<le> length h1" using Cons.prems(4) e1 by simp
  from Cons.IH[OF rec v1 s1 b1] obtain ext where "h' = h1 @ ext" "separate_clones base h' acc'"
    by blast
  with e1 show ?case by auto
qed

lemma py_index_in_set: "py_index xs i = Inr x \<Longrightarrow> x \<in> set xs"
  by (auto simp: py_index_def py_position_def split: sum.splits if_splits)

lemma extra_loop_store_sep:
  assumes "extra_loop_store best is h acc = Inr (h', acc')"
    "\<forall>t\<in>set best. \<exists>x. thread_value h t = Inr x"
    "separate_clones base h acc" "base \<le> length h"
  shows "(\<exists>ext. h' = h @ ext) \<and> separate_clones base h' acc'"
  using assms
proof (induction "is" arbitrary: h acc)
  case Nil
  then show ?case by simp
next
  case (Cons i "is")
  from Cons.prems(1) obtain t h1 t1 where t: "py_index best i = Inr t"
    and dc: "deepcopy h t = Inr (h1, t1)"
    and rec: "extra_loop_store best is h1 (acc @ [t1]) = Inr (h', acc')"
    by (auto split: sum.splits)
  from py_index_in_set[OF t] Cons.prems(2) obtain x where x: "thread_value h t = Inr x" by auto
  from deepcopy_spec[OF dc x] obtain ext1 where e1: "h1 = h @ ext1" by blast
  have s1: "separate_clones base h1 (acc @ [t1])"
    by (rule separate_clones_snoc[OF Cons.prems(3,4) dc x])
  have v1: "\<forall>t\<in>set best. \<exists>x. thread_value h1 t = Inr x"
    using Cons.prems(2) unfolding e1 by (auto intro: thread_value_append)
  have b1: "base \<le> length h1" using Cons.prems(4) e1 by simp
  from Cons.IH[OF rec v1 s1 b1] obtain ext where "h' = h1 @ ext" "separate_clones base h' acc'"
    by blast
  with e1 show ?case by auto
qed


lemma thread_values_valid:
  "thread_values h ts = Inr xs \<Longrightarrow> \<forall>t\<in>set ts. \<exists>x. thread_value h t = Inr x"
  by (induction ts arbitrary: xs) (auto split: sum.splits)

lemma thread_values_length: "thread_values h ts = Inr xs \<Longrightarrow> length xs = length ts"
  by (induction ts arbitrary: xs) (auto split: sum.splits)

lemma sort_reverse_store_Inr:
  assumes "sort_reverse_store h rs = Inr S"
  shows "(\<forall>t\<in>set rs. \<exists>x. thread_value h t = Inr x) \<and> set S = set rs"
proof -
  from assms obtain vals ks where vals: "thread_values h rs = Inr vals"
    and ks: "sort_keys vals = Inr ks"
    and S: "S = map snd (list_sort_reverse (zip ks rs))"
    by (auto simp: sort_reverse_store_def split: sum.splits)
  from sort_keys_Inr[OF ks] have "length ks = length vals" by simp
  with thread_values_length[OF vals] have "length ks = length rs" by simp
  then have "map snd (zip ks rs) = rs" by simp
  then have "set S = set rs" unfolding S by (metis set_map set_list_sort_reverse)
  with thread_values_valid[OF vals] show ?thesis by simp
qed

lemma slice_subset: "set (slice_to xs n) \<subseteq> set xs" "set (slice_from xs n) \<subseteq> set xs"
  by (auto simp: slice_to_def slice_from_def dest: in_set_takeD in_set_dropD)

lemma beam_search_store_separate:
  assumes run: "beam_search_store h rs b n = Inr (h', final, bad)"
  shows "(\<exists>ext. h' = h @ ext) \<and> separate_clones (length h) h' final \<and>
         (\<forall>t\<in>set rs. \<exists>x. thread_value h t = Inr x) \<and> set bad \<subseteq> set rs"
proof -
  from run obtain S h1 acc r where S: "sort_reverse_store h rs = Inr S"
    and cl: "clone_loop_store n b (slice_to S b) h [] = Inr (h1, acc)"
    and ex: "extra_loop_store (slice_to S b) (py_range r) h1 acc = Inr (h', final)"
    and bad: "bad = slice_from S b"
    by (auto simp: beam_search_store_def Let_def split: sum.splits)
  from sort_reverse_store_Inr[OF S] have valid: "\<forall>t\<in>set rs. \<exists>x. thread_value h t = Inr x"
    and set_S: "set S = set rs" by simp_all
  have best: "\<forall>t\<in>set (slice_to S b). \<exists>x. thread_value h t = Inr x"
    using valid set_S slice_subset(1)[of S b] by auto
  have s0: "separate_clones (length h) h []" by (simp add: separate_clones_def)
  from clone_loop_store_sep[OF cl best s0] obtain ext1 where
    e1: "h1 = h @ ext1" and s1: "separate_clones (length h) h1 acc"
    by auto
  have best1: "\<forall>t\<in>set (slice_to S b). \<exists>x. thread_value h1 t = Inr x"
    using best unfolding e1 by (auto intro: thread_value_append)
  have b1: "length h \<le> length h1" using e1 by simp
  from extra_loop_store_sep[OF ex best1 s1 b1] obtain ext2 where
    "h' = h1 @ ext2" "separate_clones (length h) h' final"
    by blast
  moreover have "set bad \<subseteq> set rs" using bad set_S slice_subset(2)[of S b] by simp
  ultimately show ?thesis using e1 valid by auto
qed

lemma clone_write_frame:
  assumes run: "beam_search_store h rs b n = Inr (h', final, bad)"
    and i: "i < length final" and a: "a \<in> set (footprint h' (final ! i))"
  shows "(\<forall>j<length final. j \<noteq> i \<longrightarrow>
            thread_value (h'[a := v]) (final ! j) = thread_value h' (final ! j)) \<and>
         (\<forall>t\<in>set rs. thread_value h' t = thread_value h t \<and>
            thread_value (h'[a := v]) t = thread_value h t)"
proof -
  from beam_search_store_separate[OF run] obtain ext where ext: "h' = h @ ext"
    and sep: "separate_clones (length h) h' final"
    and valid: "\<forall>t\<in>set rs. \<exists>x. thread_value h t = Inr x"
    by blast
  from sep i a have lo: "length h \<le> a" by (auto simp: separate_clones_def)
  have clones: "thread_value (h'[a := v]) (final ! j) = thread_value h' (final ! j)"
    if j: "j < length final" "j \<noteq> i" for j
  proof -
    from sep have "distinct final" by (simp add: separate_clones_def)
    with i j have "final ! j \<noteq> final ! i" by (simp add: nth_eq_iff_index_eq)
    with sep i j(1) have "set (footprint h' (final ! j)) \<inter> set (footprint h' (final ! i)) = {}"
      by (auto simp: separate_clones_def)
    with a have "a \<notin> set (footprint h' (final ! j))" by auto
    then show ?thesis by (rule thread_value_frame)
  qed
  have originals: "thread_value h' t = thread_value h t \<and>
            thread_value (h'[a := v]) t = thread_value h t" if "t \<in> set rs" for t
  proof -
    from valid that obtain x where x: "thread_value h t = Inr x" by auto
    have same: "thread_value h' t = Inr x" "footprint h' t = footprint h t"
      unfolding ext by (rule thread_value_append[OF x], rule footprint_append[OF x])
    from footprint_bound[OF x] lo have "a \<notin> set (footprint h' t)"
      unfolding same(2) by auto
    from thread_value_frame[OF this] same(1) x show ?thesis by simp
  qed
  from clones originals show ?thesis by blast
qed

lemma append_to_history_write:
  assumes "append_to_history h t ra = Inr h''"
  shows "\<exists>a v. a \<in> set (footprint h t) \<and> h'' = h[a := v]"
proof -
  from assms obtain name c items where f: "thread_fields h t = Inr (name, c)"
    "list_items h c = Inr items" and h'': "h'' = h[c := ContentList (items @ [ra])]"
    by (auto simp: append_to_history_def split: sum.splits prod.splits)
  from f have "c \<in> set (footprint h t)" by (simp add: footprint_def)
  with h'' show ?thesis by blast
qed

text \<open>
  Claim C7. Every thread returned by the selection step is a deep copy of its own: a write
  to any object of one returned thread (its dict, its history list, an entry of its
  history), and in particular an append to its history, changes neither the value of any
  other returned thread nor the value of any thread of the population the call was given
  (kept or discarded); the call itself leaves the given threads as they were.
\<close>

theorem clones_are_independent:
  assumes run: "beam_search_store h rs b n = Inr (h', final, bad)"
    and i: "i < length final"
  shows "(\<forall>a v. a \<in> set (footprint h' (final ! i)) \<longrightarrow>
            (\<forall>j<length final. j \<noteq> i \<longrightarrow>
               thread_value (h'[a := v]) (final ! j) = thread_value h' (final ! j)) \<and>
            (\<forall>t\<in>set rs. thread_value (h'[a := v]) t = thread_value h t)) \<and>
         (\<forall>ra h''. append_to_history h' (final ! i) ra = Inr h'' \<longrightarrow>
            (\<forall>j<length final. j \<noteq> i \<longrightarrow>
               thread_value h'' (final ! j) = thread_value h' (final ! j)) \<and>
            (\<forall>t\<in>set rs. thread_value h'' t = thread_value h t)) \<and>
         (\<forall>t\<in>set rs. thread_value h' t = thread_value h t)"
proof -
  have w: "(\<forall>j<length final. j \<noteq> i \<longrightarrow>
               thread_value (h'[a := v]) (final ! j) = thread_value h' (final ! j)) \<and>
            (\<forall>t\<in>set rs. thread_value (h'[a := v]) t = thread_value h t)"
    if "a \<in> set (footprint h' (final ! i))" for a v
    using clone_write_frame[OF run i that, of v] by blast
  have ap: "(\<forall>j<length final. j \<noteq> i \<longrightarrow>
               thread_value h'' (final ! j) = thread_value h' (final ! j)) \<and>
            (\<forall>t\<in>set rs. thread_value h'' t = thread_value h t)"
    if "append_to_history h' (final ! i) ra = Inr h''" for ra h''
  proof -
    from append_to_history_write[OF that] obtain a v where
      a: "a \<in> set (footprint h' (final ! i))" and h'': "h'' = h'[a := v]" by blast
    from w[OF a, of v] show ?thesis unfolding h'' .
  qed
  from beam_search_store_separate[OF run] obtain ext where ext: "h' = h @ ext"
    and valid: "\<forall>t\<in>set rs. \<exists>x. thread_value h t = Inr x"
    by blast
  have keep: "\<forall>t\<in>set rs. thread_value h' t = thread_value h t"
    using valid unfolding ext by (auto simp: thread_value_append)
  from w ap keep show ?thesis by blast
qed

lemma two_threads_run:
  "beam_search_store two_threads [2, 5] 1 2 = Inr (two_threads_selected, [9, 12], [5])"
  by code_simp

lemma two_threads_append:
  "append_to_history two_threads_selected 9 6 = Inr (two_threads_selected[8 := ContentList [7, 6]])"
  by code_simp

theorem clones_are_independent_witness:
  "beam_search_store two_threads [2, 5] 1 2 = Inr (two_threads_selected, [9, 12], [5]) \<and>
   append_to_history two_threads_selected 9 6
     = Inr (two_threads_selected[8 := ContentList [7, 6]]) \<and>
   thread_value (two_threads_selected[8 := ContentList [7, 6]]) 9
     = Inr \<lparr> agent_name = ''GPT'', content = [mk_response ''A'' 9, mk_response ''A2'' 7] \<rparr> \<and>
   thread_value (two_threads_selected[8 := ContentList [7, 6]]) 12
     = thread_value two_threads_selected 12 \<and>
   thread_value (two_threads_selected[8 := ContentList [7, 6]]) 2 = thread_value two_threads 2 \<and>
   thread_value two_threads 2 = Inr \<lparr> agent_name = ''GPT'', content = [mk_response ''A'' 9] \<rparr>"
proof -
  have i: "(0::nat) < length [9::nat, 12]" by simp
  note ind = clones_are_independent[OF two_threads_run i]
  have ap: "append_to_history two_threads_selected ([9, 12] ! 0) 6
      = Inr (two_threads_selected[8 := ContentList [7, 6]])"
    using two_threads_append by simp
  note fr = ind[THEN conjunct2, THEN conjunct1, rule_format, OF ap]
  from fr[THEN conjunct1, rule_format, of 1]
  have c: "thread_value (two_threads_selected[8 := ContentList [7, 6]]) 12
     = thread_value two_threads_selected 12"
    by simp
  from fr[THEN conjunct2, rule_format, of 2]
  have o: "thread_value (two_threads_selected[8 := ContentList [7, 6]]) 2
     = thread_value two_threads 2"
    by simp
  have v9: "thread_value (two_threads_selected[8 := ContentList [7, 6]]) 9
     = Inr \<lparr> agent_name = ''GPT'', content = [mk_response ''A'' 9, mk_response ''A2'' 7] \<rparr>"
    by code_simp
  have v2: "thread_value two_threads 2 = Inr \<lparr> agent_name = ''GPT'', content = [mk_response ''A'' 9] \<rparr>"
    by code_simp
  from two_threads_run two_threads_append c o v9 v2 show ?thesis by simp
qed

subsection \<open>The store model agrees with the value model\<close>

lemma thread_values_iff:
  "thread_values h ts = Inr xs \<longleftrightarrow> list_all2 (\<lambda>t x. thread_value h t = Inr x) ts xs"
proof (induction ts arbitrary: xs)
  case Nil
  show ?case by auto
next
  case (Cons t ts)
  show ?case
  proof (cases xs)
    case Nil
    then show ?thesis by (auto split: sum.splits)
  next
    case (Cons x xs')
    with Cons.IH[of xs'] show ?thesis by (auto split: sum.splits)
  qed
qed

lemma reads_append:
  "list_all2 (\<lambda>t x. thread_value h t = Inr x) ts xs \<Longrightarrow>
   list_all2 (\<lambda>t x. thread_value (h @ ext) t = Inr x) ts xs"
  by (erule list_all2_mono) (rule thread_value_append)

lemma insert_desc_rel:
  assumes "list_all2 Q ps qs" "Q p q" and key: "\<And>p q. Q p q \<Longrightarrow> fst p = fst q"
  shows "list_all2 Q (insert_desc p ps) (insert_desc q qs)"
  using assms(1)
proof (induction rule: list_all2_induct)
  case Nil
  from assms(2) show ?case by simp
next
  case (Cons p' ps q' qs)
  from key[OF assms(2)] key[OF Cons.hyps(1)] Cons assms(2) show ?case by simp
qed

lemma list_sort_reverse_rel:
  assumes "list_all2 Q ps qs" and key: "\<And>p q. Q p q \<Longrightarrow> fst p = fst q"
  shows "list_all2 Q (list_sort_reverse ps) (list_sort_reverse qs)"
  using assms(1)
proof (induction rule: list_all2_induct)
  case Nil
  show ?case by simp
next
  case (Cons p ps q qs)
  from insert_desc_rel[OF Cons.IH Cons.hyps(1) key] show ?case by simp
qed

lemma sort_decorated_rel:
  assumes R: "list_all2 R ts xs" and len: "length ks = length ts"
  shows "list_all2 R (map snd (list_sort_reverse (zip ks ts)))
                     (map snd (list_sort_reverse (zip ks xs)))"
proof -
  let ?Q = "\<lambda>p q. fst p = fst q \<and> R (snd p) (snd q)"
  from R have l2: "length ts = length xs" by (rule list_all2_lengthD)
  have "list_all2 ?Q (zip ks ts) (zip ks xs)"
    unfolding list_all2_conv_all_nth using R len l2
    by (auto simp: list_all2_conv_all_nth)
  then have "list_all2 ?Q (list_sort_reverse (zip ks ts)) (list_sort_reverse (zip ks xs))"
    by (rule list_sort_reverse_rel) simp
  then show ?thesis
    by (simp add: list_all2_map1 list_all2_map2 list_all2_mono)
qed

lemma sort_reverse_store_refines:
  assumes "thread_values h rs = Inr vals"
  shows "case sort_reverse vals of
           Inl e \<Rightarrow> sort_reverse_store h rs = Inl e
         | Inr SV \<Rightarrow> \<exists>S. sort_reverse_store h rs = Inr S \<and>
                         list_all2 (\<lambda>t x. thread_value h t = Inr x) S SV"
proof (cases "sort_keys vals")
  case (Inl e)
  with assms show ?thesis by (simp add: sort_reverse_def sort_reverse_store_def)
next
  case (Inr ks)
  from sort_keys_Inr[OF Inr] thread_values_length[OF assms] have len: "length ks = length rs"
    by simp
  from assms have "list_all2 (\<lambda>t x. thread_value h t = Inr x) rs vals"
    by (simp add: thread_values_iff)
  from sort_decorated_rel[OF this len] Inr assms show ?thesis
    by (simp add: sort_reverse_def sort_reverse_store_def)
qed

lemma slice_rel:
  assumes "list_all2 R xs ys"
  shows "list_all2 R (slice_to xs n) (slice_to ys n)"
    and "list_all2 R (slice_from xs n) (slice_from ys n)"
  using assms list_all2_lengthD[OF assms]
  by (auto simp: slice_to_def slice_from_def intro: list_all2_takeI list_all2_dropI)


lemma append_copies_store_refines:
  assumes "thread_value h t = Inr x"
    and "list_all2 (\<lambda>t x. thread_value h t = Inr x) acc vals"
  shows "\<exists>h' acc'. append_copies_store is t h acc = Inr (h', acc') \<and> (\<exists>ext. h' = h @ ext) \<and>
           list_all2 (\<lambda>t x. thread_value h' t = Inr x) acc' (append_copies is x vals)"
  using assms
proof (induction "is" arbitrary: h acc vals)
  case Nil
  then show ?case by simp
next
  case (Cons i "is")
  from deepcopy_total[OF Cons.prems(1)] obtain h1 t1 where dc: "deepcopy h t = Inr (h1, t1)"
    by (metis surj_pair)
  from deepcopy_spec[OF dc Cons.prems(1)] obtain ext1 where e1: "h1 = h @ ext1"
    and v1: "thread_value h1 t1 = Inr x" by blast
  have x1: "thread_value h1 t = Inr x" unfolding e1 by (rule thread_value_append[OF Cons.prems(1)])
  have "list_all2 (\<lambda>t x. thread_value h1 t = Inr x) acc vals"
    unfolding e1 by (rule reads_append[OF Cons.prems(2)])
  with v1 have r1: "list_all2 (\<lambda>t x. thread_value h1 t = Inr x) (acc @ [t1]) (vals @ [x])"
    by (simp add: list_all2_appendI)
  from Cons.IH[OF x1 r1] obtain h' acc' ext where
    "append_copies_store is t h1 (acc @ [t1]) = Inr (h', acc')" "h' = h1 @ ext"
    "list_all2 (\<lambda>t x. thread_value h' t = Inr x) acc' (append_copies is x (vals @ [x]))"
    by blast
  with dc e1 show ?case by auto
qed

lemma clone_loop_store_refines:
  assumes "list_all2 (\<lambda>t x. thread_value h t = Inr x) best xs"
    and "list_all2 (\<lambda>t x. thread_value h t = Inr x) acc vals"
  shows "case clone_loop n b xs vals of
           Inl e \<Rightarrow> clone_loop_store n b best h acc = Inl e
         | Inr vals' \<Rightarrow> \<exists>h' acc'. clone_loop_store n b best h acc = Inr (h', acc') \<and>
               (\<exists>ext. h' = h @ ext) \<and>
               list_all2 (\<lambda>t x. thread_value h' t = Inr x) acc' vals'"
  using assms
proof (induction best arbitrary: xs h acc vals)
  case Nil
  then show ?case by simp
next
  case (Cons t best)
  from Cons.prems(1) obtain x xs' where xs: "xs = x # xs'" and tx: "thread_value h t = Inr x"
    and rest: "list_all2 (\<lambda>t x. thread_value h t = Inr x) best xs'"
    by (auto simp: list_all2_Cons1)
  show ?case
  proof (cases "py_floordiv n b")
    case (Inl e)
    then show ?thesis by (simp add: xs)
  next
    case (Inr q)
    from append_copies_store_refines[OF tx Cons.prems(2), of "py_range q"]
    obtain h1 acc1 ext1 where ac: "append_copies_store (py_range q) t h acc = Inr (h1, acc1)"
      and e1: "h1 = h @ ext1"
      and r1: "list_all2 (\<lambda>t x. thread_value h1 t = Inr x) acc1 (append_copies (py_range q) x vals)"
      by blast
    have b1: "list_all2 (\<lambda>t x. thread_value h1 t = Inr x) best xs'"
      unfolding e1 by (rule reads_append[OF rest])
    note ih = Cons.IH[OF b1 r1]
    show ?thesis
    proof (cases "clone_loop n b xs' (append_copies (py_range q) x vals)")
      case (Inl e)
      with ih Inr ac show ?thesis by (simp add: xs)
    next
      case vals': (Inr vals')
      with ih obtain h' acc' ext where
        "clone_loop_store n b best h1 acc1 = Inr (h', acc')" "h' = h1 @ ext"
        "list_all2 (\<lambda>t x. thread_value h' t = Inr x) acc' vals'"
        by auto
      with Inr ac vals' e1 show ?thesis by (auto simp: xs)
    qed
  qed
qed

lemma py_index_rel:
  assumes "list_all2 R ts xs"
  shows "case py_index xs i of
           Inl e \<Rightarrow> py_index ts i = Inl e
         | Inr x \<Rightarrow> \<exists>t. py_index ts i = Inr t \<and> R t x"
proof -
  from assms have len: "length ts = length xs" by (rule list_all2_lengthD)
  then have pos: "py_position ts i = py_position xs i" by (simp add: py_position_def)
  show ?thesis
  proof (cases "py_position xs i")
    case (Inl e)
    with pos show ?thesis by (simp add: py_index_def)
  next
    case (Inr j)
    then have "j < length xs" by (auto simp: py_position_def split: if_splits)
    with assms have "R (ts ! j) (xs ! j)" by (simp add: list_all2_nthD2)
    with pos Inr show ?thesis by (simp add: py_index_def)
  qed
qed

lemma extra_loop_store_refines:
  assumes "list_all2 (\<lambda>t x. thread_value h t = Inr x) best xs"
    and "list_all2 (\<lambda>t x. thread_value h t = Inr x) acc vals"
  shows "case extra_loop xs is vals of
           Inl e \<Rightarrow> extra_loop_store best is h acc = Inl e
         | Inr vals' \<Rightarrow> \<exists>h' acc'. extra_loop_store best is h acc = Inr (h', acc') \<and>
               (\<exists>ext. h' = h @ ext) \<and>
               list_all2 (\<lambda>t x. thread_value h' t = Inr x) acc' vals'"
  using assms
proof (induction "is" arbitrary: h acc vals)
  case Nil
  then show ?case by simp
next
  case (Cons i "is")
  note idx = py_index_rel[OF Cons.prems(1), of i]
  show ?case
  proof (cases "py_index xs i")
    case (Inl e)
    with idx show ?thesis by simp
  next
    case (Inr x)
    with idx obtain t where t: "py_index best i = Inr t" and tx: "thread_value h t = Inr x"
      by auto
    from deepcopy_total[OF tx] obtain h1 t1 where dc: "deepcopy h t = Inr (h1, t1)"
      by (metis surj_pair)
    from deepcopy_spec[OF dc tx] obtain ext1 where e1: "h1 = h @ ext1"
      and v1: "thread_value h1 t1 = Inr x" by blast
    have b1: "list_all2 (\<lambda>t x. thread_value h1 t = Inr x) best xs"
      unfolding e1 by (rule reads_append[OF Cons.prems(1)])
    have "list_all2 (\<lambda>t x. thread_value h1 t = Inr x) acc vals"
      unfolding e1 by (rule reads_append[OF Cons.prems(2)])
    with v1 have r1: "list_all2 (\<lambda>t x. thread_value h1 t = Inr x) (acc @ [t1]) (vals @ [x])"
      by (simp add: list_all2_appendI)
    note ih = Cons.IH[OF b1 r1]
    show ?thesis
    proof (cases "extra_loop xs is (vals @ [x])")
      case (Inl e)
      with ih Inr t dc show ?thesis by simp
    next
      case vals': (Inr vals')
      with ih obtain h' acc' ext where
        "extra_loop_store best is h1 (acc @ [t1]) = Inr (h', acc')" "h' = h1 @ ext"
        "list_all2 (\<lambda>t x. thread_value h' t = Inr x) acc' vals'"
        by auto
      with Inr t dc vals' e1 show ?thesis by auto
    qed
  qed
qed

text \<open>
  The two models of the selection step agree: on a store whose threads have the values
  \<open>vals\<close>, the store-level step raises the exception the value-level step raises, or
  returns threads whose values are the threads the value-level step returns.
\<close>

lemma beam_search_store_refines:
  assumes vals: "thread_values h rs = Inr vals"
  shows "case beam_search_agent
                (no_update\<lparr> responses := Some vals, beams := Some b, threads := Some n \<rparr>) of
           Inl e \<Rightarrow> beam_search_store h rs b n = Inl e
         | Inr upd \<Rightarrow> \<exists>h' final bad fv bv. beam_search_store h rs b n = Inr (h', final, bad) \<and>
               thread_values h' final = Inr fv \<and> thread_values h' bad = Inr bv \<and>
               upd = no_update\<lparr> responses := Some fv, discarded_responses := Some bv,
                                  index := Some 0 \<rparr>"
proof -
  let ?st = "no_update\<lparr> responses := Some vals, beams := Some b, threads := Some n \<rparr>"
  note srt = sort_reverse_store_refines[OF vals]
  show ?thesis
  proof (cases "sort_reverse vals")
    case (Inl e)
    with srt show ?thesis by (simp add: beam_search_agent_def beam_search_store_def)
  next
    case (Inr SV)
    with srt obtain S where S: "sort_reverse_store h rs = Inr S"
      and rel: "list_all2 (\<lambda>t x. thread_value h t = Inr x) S SV" by auto
    note best = slice_rel(1)[OF rel, of b] and bad = slice_rel(2)[OF rel, of b]
    have nil: "list_all2 (\<lambda>t x. thread_value h t = Inr x) [] []" by simp
    note cl = clone_loop_store_refines[OF best nil, of n b]
    show ?thesis
    proof (cases "clone_loop n b (slice_to SV b) []")
      case (Inl e)
      with cl Inr S show ?thesis
        by (simp add: beam_search_agent_def beam_search_store_def Let_def)
    next
      case acc: (Inr accv)
      with cl obtain h1 acc1 ext1 where
        c1: "clone_loop_store n b (slice_to S b) h [] = Inr (h1, acc1)" and e1: "h1 = h @ ext1"
        and r1: "list_all2 (\<lambda>t x. thread_value h1 t = Inr x) acc1 accv"
        by auto
      show ?thesis
      proof (cases "py_mod n b")
        case (Inl e)
        with Inr S acc c1 show ?thesis
          by (simp add: beam_search_agent_def beam_search_store_def Let_def)
      next
        case r: (Inr r)
        have best1: "list_all2 (\<lambda>t x. thread_value h1 t = Inr x) (slice_to S b) (slice_to SV b)"
          unfolding e1 by (rule reads_append[OF best])
        note ex = extra_loop_store_refines[OF best1 r1, of "py_range r"]
        show ?thesis
        proof (cases "extra_loop (slice_to SV b) (py_range r) accv")
          case (Inl e)
          with ex Inr S acc c1 r show ?thesis
            by (simp add: beam_search_agent_def beam_search_store_def Let_def)
        next
          case fv: (Inr fv)
          with ex obtain h' final ext where
            x1: "extra_loop_store (slice_to S b) (py_range r) h1 acc1 = Inr (h', final)"
            and e2: "h' = h1 @ ext"
            and rf: "list_all2 (\<lambda>t x. thread_value h' t = Inr x) final fv"
            by auto
          have "list_all2 (\<lambda>t x. thread_value h' t = Inr x) (slice_from S b) (slice_from SV b)"
            unfolding e2 e1 append_assoc by (rule reads_append[OF bad])
          then have bv: "thread_values h' (slice_from S b) = Inr (slice_from SV b)"
            by (simp add: thread_values_iff)
          from rf have "thread_values h' final = Inr fv" by (simp add: thread_values_iff)
          with bv Inr S acc c1 r fv x1 show ?thesis
            by (simp add: beam_search_agent_def beam_search_store_def Let_def)
        qed
      qed
    qed
  qed
qed

end
